theory Spec2Isabelle
  imports Complex_Main "HOL-Library.Product_Lexorder"
begin

section \<open>Data model (backend/internal/models)\<close>

text \<open>
  A \<open>uuid.UUID\<close> is an opaque identifier; \<open>time.Time\<close> is a point on an integer
  time line counted in nanoseconds, the unit of Go's \<open>time.Duration\<close>. Go's \<open>error\<close>
  is the text of its message, since the handlers put \<open>err.Error()\<close> into responses.
\<close>

type_synonym uuid = nat
type_synonym time = int
type_synonym error = string

datatype JobStatus =
    JobStatusPending
  | JobStatusProcessing
  | JobStatusCompleted
  | JobStatusFailed
  | JobStatusCancelled

datatype OCRMode = OCRModeDocument | OCRModeHandwritten | OCRModeGeneral | OCRModeFigure

datatype ResolutionMode =
  ResolutionTiny | ResolutionSmall | ResolutionBase | ResolutionLarge | ResolutionGundam

text \<open>The struct \<open>OCRJob\<close>; the opaque \<open>Metadata\<close> map is never inspected and is left out.\<close>

record OCRJob =
  ID :: uuid
  DocumentID :: uuid
  UserID :: uuid
  Status :: JobStatus
  OCRMode :: OCRMode
  ResolutionMode :: ResolutionMode
  Priority :: int
  RetryCount :: int
  MaxRetries :: int
  ProgressPercentage :: int
  CreatedAt :: time
  StartedAt :: "time option"
  CompletedAt :: "time option"
  ErrorMessage :: "string option"

text \<open>The struct \<open>OCRResult\<close>, without the opaque \<open>JSONData\<close> and the float confidence.\<close>

record OCRResult =
  ResultID :: uuid
  JobID :: uuid
  ResultDocumentID :: uuid
  RawText :: string
  MarkdownText :: string
  ProcessingTimeMs :: int
  NumPages :: int
  ResultCreatedAt :: time

text \<open>Of the struct \<open>Document\<close> the job service reads the owner and the file path.\<close>

record Document =
  DocID :: uuid
  DocUserID :: uuid
  FilePath :: string

record JobSubmissionRequest =
  ReqDocumentID :: uuid
  ReqOCRMode :: OCRMode
  ReqResolutionMode :: ResolutionMode
  ReqPriority :: int

text \<open>What the OCR client returns on success (the fields copied into the result).\<close>

record OCRResponse =
  Text :: string
  Markdown :: string
  ProcessingTime :: int
  RespNumPages :: int

record Pagination =
  Page :: int
  PerPage :: int
  Total :: int
  TotalPages :: int
  HasNext :: bool
  HasPrev :: bool

fun JobStatus_string :: "JobStatus \<Rightarrow> string" where
  "JobStatus_string JobStatusPending = ''pending''"
| "JobStatus_string JobStatusProcessing = ''processing''"
| "JobStatus_string JobStatusCompleted = ''completed''"
| "JobStatus_string JobStatusFailed = ''failed''"
| "JobStatus_string JobStatusCancelled = ''cancelled''"

section \<open>The database: tables \<open>ocr_jobs\<close> and \<open>ocr_results\<close>\<close>

text \<open>
  A table is the list of its rows, in insertion order. The \<open>documents\<close> table belongs to
  another subsystem: a lookup in it is an input of the operation that makes it. A
  statement fails when its row is missing or a key is violated; the connection to the
  database does not fail. The INTEGER columns are integers without bound: the one
  computation on them is \<open>retry_count + 1\<close>, and counts near the bound of the column
  are not considered.
\<close>

record store =
  jobs :: "OCRJob list"
  results :: "OCRResult list"

definition empty_store :: store where
  "empty_store = \<lparr>jobs = [], results = []\<rparr>"

text \<open>Go's \<open>int\<close> is 64 bits wide and wraps; \<open>/\<close> truncates towards zero.\<close>

definition wrap64 :: "int \<Rightarrow> int" where
  "wrap64 x = (x + 2 ^ 63) mod 2 ^ 64 - 2 ^ 63"

definition go_quot :: "int \<Rightarrow> int \<Rightarrow> int" where
  "go_quot a b = sgn a * sgn b * (\<bar>a\<bar> div \<bar>b\<bar>)"

subsection \<open>JobRepository (backend/internal/repository/job\_repo.go)\<close>

definition has_job :: "store \<Rightarrow> uuid \<Rightarrow> bool" where
  "has_job s jobID = (\<exists>j \<in> set (jobs s). ID j = jobID)"

text \<open>An \<open>UPDATE ocr_jobs SET ... WHERE id = $n\<close>: every row with that id is rewritten.\<close>

definition update_rows :: "uuid \<Rightarrow> (OCRJob \<Rightarrow> OCRJob) \<Rightarrow> store \<Rightarrow> store" where
  "update_rows jobID f s = s\<lparr>jobs := map (\<lambda>j. if ID j = jobID then f j else j) (jobs s)\<rparr>"

text \<open>
  \<open>Create\<close>: the id comes from \<open>uuid.New()\<close> and the time from \<open>time.Now()\<close>, both
  given here as arguments. The columns \<open>started_at\<close>, \<open>completed_at\<close> and
  \<open>error_message\<close> are not in the INSERT and so are NULL. The primary key rejects an
  id that is already in the table.
\<close>

definition Create :: "uuid \<Rightarrow> time \<Rightarrow> OCRJob \<Rightarrow> store \<Rightarrow> error + (OCRJob \<times> store)" where
  "Create newID now job s =
     (let job' = job\<lparr>ID := newID, Status := JobStatusPending, CreatedAt := now,
                     ProgressPercentage := 0,
                     StartedAt := None, CompletedAt := None, ErrorMessage := None\<rparr>
      in if has_job s newID then Inl ''failed to create job: duplicate key''
         else Inr (job', s\<lparr>jobs := jobs s @ [job']\<rparr>))"

definition GetByID :: "store \<Rightarrow> uuid \<Rightarrow> error + OCRJob" where
  "GetByID s jobID =
     (case find (\<lambda>j. ID j = jobID) (jobs s) of
        None \<Rightarrow> Inl ''job not found''
      | Some j \<Rightarrow> Inr j)"

text \<open>The three shapes of the UPDATE that \<open>UpdateStatus\<close> builds, as functions on a row.\<close>

definition status_update :: "JobStatus \<Rightarrow> string option \<Rightarrow> time \<Rightarrow> OCRJob \<Rightarrow> OCRJob" where
  "status_update status errorMessage now j =
     (case status of
        JobStatusProcessing \<Rightarrow> j\<lparr>Status := status, StartedAt := Some now\<rparr>
      | JobStatusPending \<Rightarrow> j\<lparr>Status := status\<rparr>
      | _ \<Rightarrow>
         (case errorMessage of
            Some msg \<Rightarrow>
              j\<lparr>Status := status, CompletedAt := Some now, ErrorMessage := Some msg,
                ProgressPercentage := (if status = JobStatusCompleted then 100 else 0)\<rparr>
          | None \<Rightarrow>
              j\<lparr>Status := status, CompletedAt := Some now, ProgressPercentage := 100\<rparr>))"

definition UpdateStatus ::
  "uuid \<Rightarrow> JobStatus \<Rightarrow> string option \<Rightarrow> time \<Rightarrow> store \<Rightarrow> error + store" where
  "UpdateStatus jobID status errorMessage now s =
     (if has_job s jobID
      then Inr (update_rows jobID (status_update status errorMessage now) s)
      else Inl ''job not found'')"

text \<open>
  \<open>UpdateProgress\<close>: \<open>UPDATE ocr_jobs SET progress_percentage = $1 WHERE id = $2\<close>. The
  constraint \<open>CHECK (progress_percentage >= 0 AND progress_percentage <= 100)\<close> is tested
  on the rows the UPDATE writes: with no row of that id nothing is written, no row is
  affected and the answer is ``job not found'', whatever the value.
\<close>

definition UpdateProgress :: "uuid \<Rightarrow> int \<Rightarrow> store \<Rightarrow> error + store" where
  "UpdateProgress jobID progress s =
     (if has_job s jobID
      then (if progress < 0 \<or> 100 < progress
            then Inl ''failed to update job progress: check constraint''
            else Inr (update_rows jobID (\<lambda>j. j\<lparr>ProgressPercentage := progress\<rparr>) s))
      else Inl ''job not found'')"

definition IncrementRetryCount :: "uuid \<Rightarrow> store \<Rightarrow> error + store" where
  "IncrementRetryCount jobID s =
     (if has_job s jobID
      then Inr (update_rows jobID (\<lambda>j. j\<lparr>RetryCount := RetryCount j + 1\<rparr>) s)
      else Inl ''job not found'')"

text \<open>
  \<open>GetPendingJobs\<close>: \<open>WHERE status = 'pending' ORDER BY priority DESC, created_at ASC
  LIMIT $2\<close>. The order is the lexicographic one on \<open>(- priority, created_at)\<close>; rows that
  agree on both stay in table order. The database refuses a negative LIMIT when it
  executes the query; that error is held by \<open>rows\<close>, whose \<open>Next\<close> is then false at once,
  and the function never reads \<open>rows.Err()\<close>: it returns no jobs and no error.
\<close>

definition pending_key :: "OCRJob \<Rightarrow> int \<times> int" where
  "pending_key j = (- Priority j, CreatedAt j)"

definition GetPendingJobs :: "store \<Rightarrow> int \<Rightarrow> error + OCRJob list" where
  "GetPendingJobs s limit =
     (if limit < 0 then Inr []
      else Inr (take (nat limit)
                  (sort_key pending_key
                     (filter (\<lambda>j. Status j = JobStatusPending) (jobs s)))))"

text \<open>\<open>Delete\<close>: \<open>DELETE FROM ocr_jobs WHERE id = $1\<close>; the results of the job go with it
  (\<open>job_id UUID REFERENCES ocr_jobs(id) ON DELETE CASCADE\<close>).\<close>

definition Delete :: "uuid \<Rightarrow> store \<Rightarrow> error + store" where
  "Delete jobID s =
     (if has_job s jobID
      then Inr (s\<lparr>jobs := filter (\<lambda>j. ID j \<noteq> jobID) (jobs s),
                  results := filter (\<lambda>r. JobID r \<noteq> jobID) (results s)\<rparr>)
      else Inl ''job not found'')"

text \<open>
  \<open>GetByUserID\<close>: the count of the user's rows, and the page
  \<open>ORDER BY created_at DESC LIMIT perPage OFFSET (page - 1) * perPage\<close>. The offset is
  computed in Go's \<open>int\<close>. The database refuses a negative OFFSET or LIMIT when it
  executes the second query; as in \<open>GetPendingJobs\<close> the error stays unread in \<open>rows\<close>, and
  the function returns the count, no jobs and no error.
\<close>

definition GetByUserID :: "store \<Rightarrow> uuid \<Rightarrow> int \<Rightarrow> int \<Rightarrow> error + (OCRJob list \<times> int)" where
  "GetByUserID s userID page perPage =
     (let offset = wrap64 ((page - 1) * perPage);
          mine = filter (\<lambda>j. UserID j = userID) (jobs s);
          totalRows = int (length mine)
      in if offset < 0 \<or> perPage < 0 then Inr ([], totalRows)
         else Inr (take (nat perPage) (drop (nat offset)
                     (sort_key (\<lambda>j. - CreatedAt j) mine)), totalRows))"

subsection \<open>ResultRepository\<close>

text \<open>\<open>Create\<close> inserts a row; the foreign key \<open>job_id\<close> needs the job to exist.\<close>

definition ResultCreate :: "uuid \<Rightarrow> time \<Rightarrow> OCRResult \<Rightarrow> store \<Rightarrow> error + (OCRResult \<times> store)" where
  "ResultCreate newID now result s =
     (let result' = result\<lparr>ResultID := newID, ResultCreatedAt := now\<rparr>
      in if has_job s (JobID result)
         then Inr (result', s\<lparr>results := results s @ [result']\<rparr>)
         else Inl ''failed to create result: foreign key violation'')"

definition GetByJobID :: "store \<Rightarrow> uuid \<Rightarrow> error + OCRResult" where
  "GetByJobID s jobID =
     (case find (\<lambda>r. JobID r = jobID) (results s) of
        None \<Rightarrow> Inl ''result not found''
      | Some r \<Rightarrow> Inr r)"

section \<open>JobService: the synchronous operations\<close>

definition ListJobs :: "store \<Rightarrow> uuid \<Rightarrow> int \<Rightarrow> int \<Rightarrow> error + (OCRJob list \<times> Pagination)" where
  "ListJobs s userID page0 perPage0 =
     (let page = (if page0 < 1 then 1 else page0);
          perPage = (if perPage0 < 1 \<or> perPage0 > 100 then 20 else perPage0)
      in case GetByUserID s userID page perPage of
           Inl err \<Rightarrow> Inl err
         | Inr (js, totalRows) \<Rightarrow>
             (let totalPages = go_quot (wrap64 (wrap64 (totalRows + perPage) - 1)) perPage
              in Inr (js, \<lparr>Page = page, PerPage = perPage, Total = totalRows,
                           TotalPages = totalPages,
                           HasNext = (page < totalPages),
                           HasPrev = (page > 1)\<rparr>)))"


text \<open>
  \<open>SubmitJob\<close>: the outcome of \<open>documentRepo.GetByID\<close> is the argument \<open>doc\<close>. The
  goroutine that \<open>go s.processJob\<close> starts is added by the system step below.
\<close>

definition SubmitJob ::
  "uuid \<Rightarrow> time \<Rightarrow> error + Document \<Rightarrow> JobSubmissionRequest \<Rightarrow> uuid \<Rightarrow> store
     \<Rightarrow> error + (OCRJob \<times> store)" where
  "SubmitJob newID now doc req userID s =
     (case doc of
        Inl err \<Rightarrow> Inl (''document not found: '' @ err)
      | Inr document \<Rightarrow>
          if DocUserID document \<noteq> userID
          then Inl ''unauthorized: document does not belong to user''
          else
            (case Create newID now
                    \<lparr>ID = 0, DocumentID = ReqDocumentID req, UserID = userID,
                     Status = JobStatusPending, OCRMode = ReqOCRMode req,
                     ResolutionMode = ReqResolutionMode req, Priority = ReqPriority req,
                     RetryCount = 0, MaxRetries = 3, ProgressPercentage = 0,
                     CreatedAt = 0, StartedAt = None, CompletedAt = None,
                     ErrorMessage = None\<rparr> s of
               Inl err \<Rightarrow> Inl (''failed to create job: '' @ err)
             | Inr (job, s') \<Rightarrow> Inr (job, s')))"

definition GetJob :: "store \<Rightarrow> uuid \<Rightarrow> uuid \<Rightarrow> error + OCRJob" where
  "GetJob s jobID userID =
     (case GetByID s jobID of
        Inl err \<Rightarrow> Inl err
      | Inr job \<Rightarrow>
          if UserID job \<noteq> userID then Inl ''unauthorized: job does not belong to user''
          else Inr job)"

text \<open>
  \<open>CancelJob\<close> reads the job and checks owner and status (\<open>None\<close>: all checks passed),
  and then updates the status; other requests can reach the database between the two
  calls. \<open>DeleteJob\<close> is built in the same way.
\<close>

definition CancelJob_checks :: "store \<Rightarrow> uuid \<Rightarrow> uuid \<Rightarrow> error option" where
  "CancelJob_checks s jobID userID =
     (case GetByID s jobID of
        Inl err \<Rightarrow> Some err
      | Inr job \<Rightarrow>
          if UserID job \<noteq> userID then Some ''unauthorized: job does not belong to user''
          else if Status job = JobStatusCompleted \<or> Status job = JobStatusFailed
                  \<or> Status job = JobStatusCancelled
          then Some (''cannot cancel job with status: '' @ JobStatus_string (Status job))
          else None)"

definition CancelJob_update :: "time \<Rightarrow> store \<Rightarrow> uuid \<Rightarrow> error + store" where
  "CancelJob_update now s jobID =
     (case UpdateStatus jobID JobStatusCancelled None now s of
        Inl err \<Rightarrow> Inl (''failed to cancel job: '' @ err)
      | Inr s' \<Rightarrow> Inr s')"

definition CancelJob :: "time \<Rightarrow> store \<Rightarrow> uuid \<Rightarrow> uuid \<Rightarrow> error + store" where
  "CancelJob now s jobID userID =
     (case CancelJob_checks s jobID userID of
        Some err \<Rightarrow> Inl err
      | None \<Rightarrow> CancelJob_update now s jobID)"

definition DeleteJob_checks :: "store \<Rightarrow> uuid \<Rightarrow> uuid \<Rightarrow> error option" where
  "DeleteJob_checks s jobID userID =
     (case GetByID s jobID of
        Inl err \<Rightarrow> Some err
      | Inr job \<Rightarrow>
          if UserID job \<noteq> userID then Some ''unauthorized: job does not belong to user''
          else if Status job = JobStatusPending \<or> Status job = JobStatusProcessing
          then Some ''cannot delete active job, cancel it first''
          else None)"

definition DeleteJob_delete :: "store \<Rightarrow> uuid \<Rightarrow> error + store" where
  "DeleteJob_delete s jobID =
     (case Delete jobID s of
        Inl err \<Rightarrow> Inl (''failed to delete job: '' @ err)
      | Inr s' \<Rightarrow> Inr s')"

definition DeleteJob :: "store \<Rightarrow> uuid \<Rightarrow> uuid \<Rightarrow> error + store" where
  "DeleteJob s jobID userID =
     (case DeleteJob_checks s jobID userID of
        Some err \<Rightarrow> Inl err
      | None \<Rightarrow> DeleteJob_delete s jobID)"

definition GetJobResult :: "store \<Rightarrow> uuid \<Rightarrow> uuid \<Rightarrow> error + OCRResult" where
  "GetJobResult s jobID userID =
     (case GetByID s jobID of
        Inl err \<Rightarrow> Inl err
      | Inr job \<Rightarrow>
          if UserID job \<noteq> userID then Inl ''unauthorized: job does not belong to user''
          else GetByJobID s jobID)"

definition ServiceGetPendingJobs :: "store \<Rightarrow> int \<Rightarrow> error + OCRJob list" where
  "ServiceGetPendingJobs s limit = GetPendingJobs s limit"

text \<open>
  \<open>ProcessNextJob\<close> asks for one pending job, the first of the queue, and starts
  \<open>processJob\<close> for it in a new goroutine. The value here is the id of that job, or
  \<open>None\<close> when no job is pending; the goroutine is added by the system step below.
\<close>

definition ProcessNextJob :: "store \<Rightarrow> error + uuid option" where
  "ProcessNextJob s =
     (case ServiceGetPendingJobs s 1 of
        Inl err \<Rightarrow> Inl err
      | Inr js \<Rightarrow>
          (case js of
             [] \<Rightarrow> Inr None
           | job # rest \<Rightarrow> Inr (Some (ID job))))"

section \<open>JobHandler: what the caller sees\<close>

text \<open>
  The handlers after authentication and after the job id has been parsed. A response is
  the HTTP status with the error code and message, or with the data and message.
\<close>

datatype payload = JobData OCRJob | ResultData OCRResult | NoData

datatype response =
    ErrorResponse int string string
  | SuccessResponse int payload string

definition JobHandler_GetJob :: "store \<Rightarrow> uuid \<Rightarrow> uuid \<Rightarrow> response" where
  "JobHandler_GetJob s jobID userID =
     (case GetJob s jobID userID of
        Inl err \<Rightarrow> ErrorResponse 404 ''RES_003'' ''Job not found''
      | Inr job \<Rightarrow> SuccessResponse 200 (JobData job) ''Job retrieved successfully'')"

definition JobHandler_CancelJob :: "time \<Rightarrow> store \<Rightarrow> uuid \<Rightarrow> uuid \<Rightarrow> response \<times> store" where
  "JobHandler_CancelJob now s jobID userID =
     (case CancelJob now s jobID userID of
        Inl err \<Rightarrow> (ErrorResponse 400 ''JOB_002'' err, s)
      | Inr s' \<Rightarrow> (SuccessResponse 200 NoData ''Job cancelled successfully'', s'))"

definition JobHandler_DeleteJob :: "store \<Rightarrow> uuid \<Rightarrow> uuid \<Rightarrow> response \<times> store" where
  "JobHandler_DeleteJob s jobID userID =
     (case DeleteJob s jobID userID of
        Inl err \<Rightarrow> (ErrorResponse 400 ''JOB_003'' err, s)
      | Inr s' \<Rightarrow> (SuccessResponse 200 NoData ''Job deleted successfully'', s'))"

definition JobHandler_GetJobResult :: "store \<Rightarrow> uuid \<Rightarrow> uuid \<Rightarrow> response" where
  "JobHandler_GetJobResult s jobID userID =
     (case GetJobResult s jobID userID of
        Inl err \<Rightarrow> ErrorResponse 404 ''RES_004'' ''Result not found''
      | Inr result \<Rightarrow> SuccessResponse 200 (ResultData result) ''Result retrieved successfully'')"

section \<open>JobService.processJob, one repository call at a time\<close>

text \<open>
  \<open>processJob\<close> runs in its own goroutine, and other requests reach the database between
  any two of its calls. Its control points are the calls it is about to make; the local
  variable \<open>job\<close>, read once at the start, travels with them. In the order of the
  source: \<open>jobRepo.GetByID\<close> with the test for pending; \<open>UpdateStatus\<close> to processing;
  \<open>documentRepo.GetByID\<close>, and \<open>UpdateStatus\<close> to failed when it fails;
  \<open>ocrClient.ProcessDocument\<close>, and on its failure \<open>UpdateStatus\<close> to failed with the
  retry test, \<open>IncrementRetryCount\<close>, \<open>UpdateStatus\<close> to pending and \<open>time.Sleep\<close>;
  \<open>resultRepo.Create\<close>, and \<open>UpdateStatus\<close> to failed when it fails; \<open>UpdateStatus\<close> to
  completed.
\<close>

datatype pc =
    AtGetJob
  | AtSetProcessing OCRJob
  | AtGetDocument OCRJob
  | AtDocumentFailed string
  | AtOCR OCRJob Document
  | AtOCRFailed OCRJob string
  | AtIncrementRetry
  | AtSetPending
  | AtSleep time
  | AtSaveResult OCRJob OCRResponse
  | AtSaveFailed string
  | AtSetCompleted

definition Second :: int where
  "Second = 1000000000"

definition ignore_error :: "store \<Rightarrow> error + store \<Rightarrow> store" where
  "ignore_error s r = (case r of Inl err \<Rightarrow> s | Inr s' \<Rightarrow> s')"

text \<open>
  One step of the goroutine for \<open>jobID\<close>: the new store and the next control point, or
  \<open>None\<close> when \<open>processJob\<close> returns. \<open>doc\<close> and \<open>ocr\<close> are the outcomes of the document
  lookup and of the OCR call, used at the points that make them. At the end of the sleep
  the goroutine starts \<open>processJob\<close> again and returns; here it goes on as the new one.
\<close>

fun processJob_step ::
  "time \<Rightarrow> uuid \<Rightarrow> error + Document \<Rightarrow> error + OCRResponse \<Rightarrow> uuid \<Rightarrow> store \<Rightarrow> pc
     \<Rightarrow> store \<times> pc option" where
  "processJob_step now newID doc ocr jobID s AtGetJob =
     (case GetByID s jobID of
        Inl err \<Rightarrow> (s, None)
      | Inr job \<Rightarrow>
          if Status job \<noteq> JobStatusPending then (s, None)
          else (s, Some (AtSetProcessing job)))"
| "processJob_step now newID doc ocr jobID s (AtSetProcessing job) =
     (case UpdateStatus jobID JobStatusProcessing None now s of
        Inl err \<Rightarrow> (s, None)
      | Inr s' \<Rightarrow> (s', Some (AtGetDocument job)))"
| "processJob_step now newID doc ocr jobID s (AtGetDocument job) =
     (case doc of
        Inl err \<Rightarrow> (s, Some (AtDocumentFailed (''Failed to get document: '' @ err)))
      | Inr document \<Rightarrow> (s, Some (AtOCR job document)))"
| "processJob_step now newID doc ocr jobID s (AtDocumentFailed errorMsg) =
     (ignore_error s (UpdateStatus jobID JobStatusFailed (Some errorMsg) now s), None)"
| "processJob_step now newID doc ocr jobID s (AtOCR job document) =
     (case ocr of
        Inl err \<Rightarrow> (s, Some (AtOCRFailed job (''OCR processing failed: '' @ err)))
      | Inr ocrResponse \<Rightarrow> (s, Some (AtSaveResult job ocrResponse)))"
| "processJob_step now newID doc ocr jobID s (AtOCRFailed job errorMsg) =
     (let s' = ignore_error s (UpdateStatus jobID JobStatusFailed (Some errorMsg) now s)
      in if RetryCount job < MaxRetries job then (s', Some AtIncrementRetry)
         else (s', None))"
| "processJob_step now newID doc ocr jobID s AtIncrementRetry =
     (ignore_error s (IncrementRetryCount jobID s), Some AtSetPending)"
| "processJob_step now newID doc ocr jobID s AtSetPending =
     (ignore_error s (UpdateStatus jobID JobStatusPending None now s),
      Some (AtSleep (now + 10 * Second)))"
| "processJob_step now newID doc ocr jobID s (AtSleep wake) =
     (if wake \<le> now then (s, Some AtGetJob) else (s, Some (AtSleep wake)))"
| "processJob_step now newID doc ocr jobID s (AtSaveResult job ocrResponse) =
     (case ResultCreate newID now
             \<lparr>ResultID = 0, JobID = jobID, ResultDocumentID = DocumentID job,
              RawText = Text ocrResponse, MarkdownText = Markdown ocrResponse,
              ProcessingTimeMs = ProcessingTime ocrResponse,
              NumPages = RespNumPages ocrResponse, ResultCreatedAt = 0\<rparr> s of
        Inl err \<Rightarrow> (s, Some (AtSaveFailed (''Failed to save result: '' @ err)))
      | Inr (result, s') \<Rightarrow> (s', Some AtSetCompleted))"
| "processJob_step now newID doc ocr jobID s (AtSaveFailed errorMsg) =
     (ignore_error s (UpdateStatus jobID JobStatusFailed (Some errorMsg) now s), None)"
| "processJob_step now newID doc ocr jobID s AtSetCompleted =
     (ignore_error s (UpdateStatus jobID JobStatusCompleted None now s), None)"

section \<open>The running system\<close>

text \<open>
  The store, the goroutines of \<open>processJob\<close> in flight (each with the id of its job),
  the calls of \<open>CancelJob\<close> and \<open>DeleteJob\<close> that have passed their checks and have
  their write still to make, the clock, and a counter for \<open>uuid.New()\<close>, which never
  hands out a value twice. \<open>processJob\<close> is started by \<open>SubmitJob\<close>, by the retry and
  by \<open>ProcessNextJob\<close>, which takes the job from the queue of pending jobs whether or
  not a goroutine for it is in flight already.

  An event is the passing of time, a call of \<open>SubmitJob\<close> (its one write included), the
  arrival of a call of \<open>CancelJob\<close> or \<open>DeleteJob\<close> with its read and checks, the
  write of the call at a given position, one step of the goroutine at a given
  position, or a call of \<open>ProcessNextJob\<close>. So the repository calls of all requests and
  goroutines interleave in any order. An event that cannot happen (a call that fails its checks, a position that is
  empty) leaves the system as it is.
\<close>

datatype call = CancelAtUpdate uuid | DeleteAtDelete uuid

record system =
  db :: store
  tasks :: "(uuid \<times> pc) list"
  calls :: "call list"
  clock :: time
  next_uuid :: uuid

definition init_system :: system where
  "init_system = \<lparr>db = empty_store, tasks = [], calls = [], clock = 0, next_uuid = 1\<rparr>"

datatype event =
    Tick int
  | Submit JobSubmissionRequest uuid "error + Document"
  | Cancel uuid uuid
  | DeleteEv uuid uuid
  | Finish nat
  | Dispatch nat "error + Document" "error + OCRResponse"
  | ProcessNext

fun finish_call :: "time \<Rightarrow> call \<Rightarrow> store \<Rightarrow> store" where
  "finish_call now (CancelAtUpdate jobID) s = ignore_error s (CancelJob_update now s jobID)"
| "finish_call now (DeleteAtDelete jobID) s = ignore_error s (DeleteJob_delete s jobID)"

fun sys_step :: "event \<Rightarrow> system \<Rightarrow> system" where
  "sys_step (Tick d) sys = sys\<lparr>clock := clock sys + max 0 d\<rparr>"
| "sys_step (Submit req userID doc) sys =
     (case SubmitJob (next_uuid sys) (clock sys) doc req userID (db sys) of
        Inl err \<Rightarrow> sys
      | Inr (job, s') \<Rightarrow>
          sys\<lparr>db := s', tasks := tasks sys @ [(ID job, AtGetJob)],
              next_uuid := Suc (next_uuid sys)\<rparr>)"
| "sys_step (Cancel jobID userID) sys =
     (case CancelJob_checks (db sys) jobID userID of
        Some err \<Rightarrow> sys
      | None \<Rightarrow> sys\<lparr>calls := calls sys @ [CancelAtUpdate jobID]\<rparr>)"
| "sys_step (DeleteEv jobID userID) sys =
     (case DeleteJob_checks (db sys) jobID userID of
        Some err \<Rightarrow> sys
      | None \<Rightarrow> sys\<lparr>calls := calls sys @ [DeleteAtDelete jobID]\<rparr>)"
| "sys_step (Finish i) sys =
     (if i < length (calls sys)
      then sys\<lparr>db := finish_call (clock sys) (calls sys ! i) (db sys),
               calls := take i (calls sys) @ drop (Suc i) (calls sys)\<rparr>
      else sys)"
| "sys_step (Dispatch i doc ocr) sys =
     (if i < length (tasks sys)
      then
        (case tasks sys ! i of
           (jobID, p) \<Rightarrow>
             (case processJob_step (clock sys) (next_uuid sys) doc ocr jobID (db sys) p of
                (s', None) \<Rightarrow>
                  sys\<lparr>db := s', tasks := take i (tasks sys) @ drop (Suc i) (tasks sys),
                      next_uuid := Suc (next_uuid sys)\<rparr>
              | (s', Some p') \<Rightarrow>
                  sys\<lparr>db := s', tasks := (tasks sys)[i := (jobID, p')],
                      next_uuid := Suc (next_uuid sys)\<rparr>))
      else sys)"
| "sys_step ProcessNext sys =
     (case ProcessNextJob (db sys) of
        Inl err \<Rightarrow> sys
      | Inr None \<Rightarrow> sys
      | Inr (Some jobID) \<Rightarrow> sys\<lparr>tasks := tasks sys @ [(jobID, AtGetJob)]\<rparr>)"

definition run :: "event list \<Rightarrow> system \<Rightarrow> system" where
  "run es sys = fold sys_step es sys"

text \<open>The states a run passes through, the first and the last included.\<close>

fun states :: "event list \<Rightarrow> system \<Rightarrow> system list" where
  "states [] sys = [sys]"
| "states (e # es) sys = sys # states es (sys_step e sys)"

text \<open>No job has two goroutines of \<open>processJob\<close> in flight.\<close>

definition one_dispatch :: "system \<Rightarrow> bool" where
  "one_dispatch sys \<longleftrightarrow> distinct (map fst (tasks sys))"


section \<open>Orders and example data\<close>

text \<open>\<open>a\<close> may come before \<open>b\<close> in the queue: higher priority, or the same priority and
  not created later.\<close>

definition before_in_queue :: "OCRJob \<Rightarrow> OCRJob \<Rightarrow> bool" where
  "before_in_queue a b \<longleftrightarrow>
     Priority b < Priority a \<or> (Priority a = Priority b \<and> CreatedAt a \<le> CreatedAt b)"

definition example_job :: "uuid \<Rightarrow> int \<Rightarrow> time \<Rightarrow> OCRJob" where
  "example_job i p t =
     \<lparr>ID = i, DocumentID = 7, UserID = 42, Status = JobStatusPending,
      OCRMode = OCRModeDocument, ResolutionMode = ResolutionBase, Priority = p,
      RetryCount = 0, MaxRetries = 3, ProgressPercentage = 0, CreatedAt = t,
      StartedAt = None, CompletedAt = None, ErrorMessage = None\<rparr>"

definition job_A :: OCRJob where "job_A = example_job 1 5 1"
definition job_B :: OCRJob where "job_B = example_job 2 9 2"
definition job_C :: OCRJob where "job_C = example_job 3 5 0"

definition abc_store :: store where
  "abc_store = \<lparr>jobs = [job_A, job_B, job_C], results = []\<rparr>"

section \<open>Properties of the store and of the goroutines\<close>

definition terminal :: "JobStatus \<Rightarrow> bool" where
  "terminal st \<longleftrightarrow>
     st = JobStatusCompleted \<or> st = JobStatusFailed \<or> st = JobStatusCancelled"

definition has_result :: "store \<Rightarrow> uuid \<Rightarrow> bool" where
  "has_result s jobID = (\<exists>r \<in> set (results s). JobID r = jobID)"

text \<open>What a step of \<open>processJob\<close> at control point \<open>p\<close> does to the row of its job.\<close>

fun row_effect :: "time \<Rightarrow> pc \<Rightarrow> OCRJob \<Rightarrow> OCRJob" where
  "row_effect now (AtSetProcessing job) = status_update JobStatusProcessing None now"
| "row_effect now (AtDocumentFailed msg) = status_update JobStatusFailed (Some msg) now"
| "row_effect now (AtOCRFailed job msg) = status_update JobStatusFailed (Some msg) now"
| "row_effect now AtIncrementRetry = (\<lambda>j. j\<lparr>RetryCount := RetryCount j + 1\<rparr>)"
| "row_effect now AtSetPending = status_update JobStatusPending None now"
| "row_effect now (AtSaveFailed msg) = status_update JobStatusFailed (Some msg) now"
| "row_effect now AtSetCompleted = status_update JobStatusCompleted None now"
| "row_effect now p = (\<lambda>j. j)"

text \<open>Identifiers in use are older than the next one, and job ids are unique in the
  table.\<close>

definition base_inv :: "system \<Rightarrow> bool" where
  "base_inv sys \<longleftrightarrow>
     (\<forall>j \<in> set (jobs (db sys)). ID j < next_uuid sys)
   \<and> (\<forall>r \<in> set (results (db sys)). JobID r < next_uuid sys)
   \<and> (\<forall>t \<in> set (tasks sys). fst t < next_uuid sys)
   \<and> distinct (map ID (jobs (db sys)))"



text \<open>Between marking the job processing and the end of the successful path the row
  is processing, or cancelled by its owner, when the goroutine is the only one of its
  job.\<close>

fun on_success_path :: "pc \<Rightarrow> bool" where
  "on_success_path (AtGetDocument job) = True"
| "on_success_path (AtOCR job document) = True"
| "on_success_path (AtSaveResult job ocrResponse) = True"
| "on_success_path AtSetCompleted = True"
| "on_success_path p = False"

definition result_inv :: "system \<Rightarrow> bool" where
  "result_inv sys \<longleftrightarrow>
     (\<forall>j \<in> set (jobs (db sys)).
         (Status j = JobStatusCompleted \<longrightarrow> has_result (db sys) (ID j))
       \<and> (has_result (db sys) (ID j) \<longrightarrow>
            Status j = JobStatusProcessing \<or> Status j = JobStatusCancelled
            \<or> Status j = JobStatusCompleted))
   \<and> distinct (map JobID (results (db sys)))
   \<and> (\<forall>t \<in> set (tasks sys).
         (if snd t = AtSetCompleted
          then has_job (db sys) (fst t) \<longrightarrow> has_result (db sys) (fst t)
          else \<not> has_result (db sys) (fst t))
       \<and> (on_success_path (snd t) \<longrightarrow>
            (\<forall>j \<in> set (jobs (db sys)). ID j = fst t \<longrightarrow>
               Status j = JobStatusProcessing \<or> Status j = JobStatusCancelled)))"

text \<open>A completed job has a result, and so has the job of a goroutine that has saved
  its result and has the status still to write, as long as the job exists.\<close>

definition completed_inv :: "system \<Rightarrow> bool" where
  "completed_inv sys \<longleftrightarrow>
     (\<forall>j \<in> set (jobs (db sys)).
         Status j = JobStatusCompleted \<longrightarrow> has_result (db sys) (ID j))
   \<and> (\<forall>t \<in> set (tasks sys).
         snd t = AtSetCompleted \<longrightarrow> has_job (db sys) (fst t) \<longrightarrow> has_result (db sys) (fst t))"

text \<open>A user (42) with a document (7), and what the OCR service answers for it.\<close>

definition example_request :: JobSubmissionRequest where
  "example_request =
     \<lparr>ReqDocumentID = 7, ReqOCRMode = OCRModeDocument,
      ReqResolutionMode = ResolutionBase, ReqPriority = 0\<rparr>"

definition example_document :: Document where
  "example_document = \<lparr>DocID = 7, DocUserID = 42, FilePath = ''/uploads/7.pdf''\<rparr>"

definition example_response :: OCRResponse where
  "example_response =
     \<lparr>Text = ''text'', Markdown = ''# text'', ProcessingTime = 5, RespNumPages = 1\<rparr>"

text \<open>A step of goroutine 0 whose document lookup and OCR call succeed, and one whose
  OCR call times out.\<close>

definition step_ok :: event where
  "step_ok = Dispatch 0 (Inr example_document) (Inr example_response)"

definition step_timeout :: event where
  "step_timeout = Dispatch 0 (Inr example_document) (Inl ''timeout'')"

text \<open>The user submits a job; at time 1 the goroutine reads it, marks it processing and
  finds the document, so that the OCR call is in flight.\<close>

definition events_to_ocr :: "event list" where
  "events_to_ocr =
     [Submit example_request 42 (Inr example_document), Tick 1, step_ok, step_ok, step_ok]"

text \<open>From there: the OCR call times out and the goroutine writes the failure; then it
  increments the retry count and sets the job pending; ten seconds later it starts again
  and marks the job processing.\<close>

definition events_failed_once :: "event list" where
  "events_failed_once = events_to_ocr @ [step_timeout, step_ok]"

definition events_requeued :: "event list" where
  "events_requeued = events_failed_once @ [step_ok, step_ok]"

definition events_redispatched :: "event list" where
  "events_redispatched = events_requeued @ [Tick (10 * Second), step_ok, step_ok, step_ok]"

text \<open>Or: the owner cancels while the OCR call is in flight; at time 6 the call returns
  and the goroutine saves the result and writes its status.\<close>

definition events_cancelled_in_flight :: "event list" where
  "events_cancelled_in_flight = events_to_ocr @ [Cancel 1 42, Finish 0]"

definition events_cancel_overwritten :: "event list" where
  "events_cancel_overwritten =
     events_cancelled_in_flight @ [Tick 5, step_ok, step_ok, step_ok]"

text \<open>Or: the OCR call succeeds and the goroutine has saved the result, the status write
  still to come.\<close>

definition events_result_saved :: "event list" where
  "events_result_saved = events_to_ocr @ [step_ok, step_ok]"

text \<open>Or: the owner cancels at time 1, before the goroutine has read the job.\<close>

definition events_cancelled_pending :: "event list" where
  "events_cancelled_pending =
     [Submit example_request 42 (Inr example_document), Tick 1, Cancel 1 42, Finish 0]"

text \<open>A step of goroutine \<open>i\<close> whose OCR call succeeds, and one whose OCR call times
  out.\<close>

definition step_ok_at :: "nat \<Rightarrow> event" where
  "step_ok_at i = Dispatch i (Inr example_document) (Inr example_response)"

definition step_timeout_at :: "nat \<Rightarrow> event" where
  "step_timeout_at i = Dispatch i (Inr example_document) (Inl ''timeout'')"


text \<open>
  Or \<open>ProcessNextJob\<close> is called once while the job is pending, and the OCR call
  succeeds for both goroutines: each saves a result, and each writes completed. Or it
  succeeds for the first only: the first saves its result and writes completed, and then
  the second writes failed.
\<close>

definition events_two_results :: "event list" where
  "events_two_results =
     [Submit example_request 42 (Inr example_document), ProcessNext]
     @ concat (replicate 5 (map step_ok_at [0, 1])) @ [step_ok_at 0, step_ok_at 0]"

definition events_result_then_failed :: "event list" where
  "events_result_then_failed =
     [Submit example_request 42 (Inr example_document), ProcessNext]
     @ concat (replicate 3 (map step_ok_at [0, 1]))
     @ [step_ok_at 0, step_ok_at 0, step_ok_at 0, step_timeout_at 0, step_timeout_at 0]"

section \<open>Arithmetic of Go's \<open>int\<close>\<close>

lemma wrap64_id: "- (2 ^ 63) \<le> x \<Longrightarrow> x < 2 ^ 63 \<Longrightarrow> wrap64 x = x"
  unfolding wrap64_def by (simp add: mod_pos_pos_trivial)

lemma go_quot_nonneg: "0 \<le> a \<Longrightarrow> 0 < b \<Longrightarrow> go_quot a b = a div b"
  unfolding go_quot_def by (cases "a = 0") simp_all

lemma round_up_div:
  fixes t p :: int
  assumes "0 < p"
  shows "(t + p - 1) div p = - (- t div p)"
proof (cases "t mod p = 0")
  case True
  have "t = p * (t div p) + t mod p" by simp
  then have "t = p * (t div p)" using True by simp
  then have "t + p - 1 = p * (t div p) + (p - 1)" by linarith
  then have "(t + p - 1) div p = t div p"
    using assms by (intro int_div_pos_eq [where r = "p - 1"]) simp_all
  moreover have "- t div p = - (t div p)"
    using True assms by (simp add: zdiv_zminus1_eq_if)
  ultimately show ?thesis by simp
next
  case False
  have r: "0 < t mod p" "t mod p < p"
    using False assms pos_mod_sign [of p t] pos_mod_bound [of p t] by linarith+
  have "t = p * (t div p) + t mod p" by simp
  then have "t + p - 1 = p * (t div p + 1) + (t mod p - 1)"
    by (simp add: algebra_simps)
  then have "(t + p - 1) div p = t div p + 1"
    using r by (intro int_div_pos_eq [where r = "t mod p - 1"]) simp_all
  moreover have "- t div p = - (t div p) - 1"
    using False assms by (simp add: zdiv_zminus1_eq_if)
  ultimately show ?thesis by simp
qed

lemma ceiling_div_int:
  fixes t p :: int
  assumes "0 < p"
  shows "\<lceil>real_of_int t / real_of_int p\<rceil> = (t + p - 1) div p"
  using round_up_div [OF assms, of t] by (simp add: ceiling_divide_eq_div)

section \<open>Pagination of ListJobs\<close>

text \<open>
  Claim C10. Every call of \<open>ListJobs\<close> succeeds, whatever page and page size are asked
  for, and the pagination it returns carries the clamped page and page size, the number
  of the user's jobs as total, the ceiling of total over page size as the number of
  pages, \<open>HasNext\<close> exactly when the page is before the last one and \<open>HasPrev\<close> exactly
  when it is after the first. The table holds fewer than \<open>2^63 - 100\<close> rows, so that the
  sum \<open>total + perPage - 1\<close> fits Go's \<open>int\<close>.
\<close>

theorem ListJobs_pagination_consistent:
  assumes small: "int (length (jobs s)) \<le> 2 ^ 63 - 101"
  shows "\<exists>js pg. ListJobs s userID page perPage = Inr (js, pg)
       \<and> Page pg = (if page < 1 then 1 else page)
       \<and> PerPage pg = (if perPage < 1 \<or> perPage > 100 then 20 else perPage)
       \<and> Total pg = int (length (filter (\<lambda>j. UserID j = userID) (jobs s)))
       \<and> TotalPages pg = \<lceil>real_of_int (Total pg) / real_of_int (PerPage pg)\<rceil>
       \<and> (HasNext pg \<longleftrightarrow> Page pg < TotalPages pg)
       \<and> (HasPrev pg \<longleftrightarrow> Page pg > 1)"
proof -
  define pp where "pp = (if perPage < 1 \<or> perPage > 100 then 20 else perPage)"
  define tot where "tot = int (length (filter (\<lambda>j. UserID j = userID) (jobs s)))"
  have pp: "1 \<le> pp" "pp \<le> 100" by (auto simp: pp_def)
  have "length (filter (\<lambda>j. UserID j = userID) (jobs s)) \<le> length (jobs s)"
    by (rule length_filter_le)
  then have "tot \<le> int (length (jobs s))" unfolding tot_def by linarith
  then have "tot \<le> 2 ^ 63 - 101" using small by linarith
  moreover have "0 \<le> tot" by (simp add: tot_def)
  ultimately have tot: "0 \<le> tot" "tot \<le> 2 ^ 63 - 101" by blast+
  have w1: "wrap64 (tot + pp) = tot + pp"
    using tot pp by (intro wrap64_id) linarith+
  have w2: "wrap64 (tot + pp - 1) = tot + pp - 1"
    using tot pp by (intro wrap64_id) linarith+
  have q: "go_quot (wrap64 (wrap64 (tot + pp) - 1)) pp = \<lceil>real_of_int tot / real_of_int pp\<rceil>"
    using tot pp by (simp add: w1 w2 go_quot_nonneg ceiling_div_int)
  show ?thesis
    using q unfolding ListJobs_def GetByUserID_def Let_def pp_def [symmetric] tot_def [symmetric]
    by simp
qed

text \<open>A page of two of the three jobs of user 42; and the page \<open>2^61 + 1\<close> of size 4,
  whose offset \<open>2^63\<close> wraps to a negative number.\<close>

theorem ListJobs_pagination_consistent_witness:
  "int (length (jobs abc_store)) \<le> 2 ^ 63 - 101
   \<and> ListJobs abc_store 42 1 2 =
       Inr ([job_B, job_A],
            \<lparr>Page = 1, PerPage = 2, Total = 3, TotalPages = 2, HasNext = True, HasPrev = False\<rparr>)
   \<and> (2 :: int) = \<lceil>real_of_int 3 / real_of_int 2\<rceil>
   \<and> ListJobs abc_store 42 2305843009213693953 4 =
       Inr ([],
            \<lparr>Page = 2305843009213693953, PerPage = 4, Total = 3, TotalPages = 1,
             HasNext = False, HasPrev = True\<rparr>)
   \<and> (1 :: int) = \<lceil>real_of_int 3 / real_of_int 4\<rceil>"
proof -
  have b: "int (length (jobs abc_store)) \<le> 2 ^ 63 - 101"
    by (simp add: abc_store_def)
  have e: "ListJobs abc_store 42 1 2 =
     Inr ([job_B, job_A],
          \<lparr>Page = 1, PerPage = 2, Total = 3, TotalPages = 2, HasNext = True, HasPrev = False\<rparr>)"
    "ListJobs abc_store 42 2305843009213693953 4 =
       Inr ([],
            \<lparr>Page = 2305843009213693953, PerPage = 4, Total = 3, TotalPages = 1,
             HasNext = False, HasPrev = True\<rparr>)"
    by code_simp+
  show ?thesis
    using ListJobs_pagination_consistent [OF b, of 42 1 2]
      ListJobs_pagination_consistent [OF b, of 42 2305843009213693953 4] e b
    by auto
qed

section \<open>The queue of pending jobs\<close>

lemma pending_key_le: "pending_key a \<le> pending_key b \<longleftrightarrow> before_in_queue a b"
  by (auto simp: pending_key_def before_in_queue_def less_eq_prod_def)

lemma sorted_pending: "sorted_wrt before_in_queue (sort_key pending_key xs)"
proof -
  have "sorted (map pending_key (sort_key pending_key xs))" by (rule sorted_sort_key)
  then show ?thesis by (simp add: sorted_map pending_key_le [abs_def])
qed

lemma GetPendingJobs_take:
  "GetPendingJobs s limit
     = Inr (take (nat limit)
              (sort_key pending_key (filter (\<lambda>j. Status j = JobStatusPending) (jobs s))))"
  by (simp add: GetPendingJobs_def)

lemma abc_example:
  "3 \<le> limit \<Longrightarrow> ServiceGetPendingJobs abc_store limit = Inr [job_B, job_C, job_A]"
  by (simp add: ServiceGetPendingJobs_def GetPendingJobs_def abc_store_def job_A_def
      job_B_def job_C_def example_job_def pending_key_def less_eq_prod_def)

text \<open>
  Claim C8. Whatever the stored jobs and whatever the limit, negative ones included,
  \<open>GetPendingJobs\<close> returns a list, and the jobs it returns are stored jobs with status
  pending. The list is the front part of an arrangement of all pending jobs in which
  each job has higher priority than every later one, or the same priority and a creation
  time not after it; it has as many jobs as the limit allows, and none for a negative
  limit. For A (priority 5, created at 1), B (9, 2) and C (5, 0) and room for three, the
  answer is B, C, A.
\<close>

theorem GetPendingJobs_order:
  "(\<exists>js rest. ServiceGetPendingJobs s limit = Inr js
       \<and> (\<forall>j \<in> set js. Status j = JobStatusPending \<and> j \<in> set (jobs s))
       \<and> sorted_wrt before_in_queue (js @ rest)
       \<and> set (js @ rest) = {j \<in> set (jobs s). Status j = JobStatusPending}
       \<and> length (js @ rest)
           = length (filter (\<lambda>j. Status j = JobStatusPending) (jobs s))
       \<and> length js
           = min (nat limit) (length (filter (\<lambda>j. Status j = JobStatusPending) (jobs s))))
   \<and> (3 \<le> limit \<longrightarrow> ServiceGetPendingJobs abc_store limit = Inr [job_B, job_C, job_A])"
proof (intro conjI impI)
  let ?queue = "sort_key pending_key (filter (\<lambda>j. Status j = JobStatusPending) (jobs s))"
  let ?js = "take (nat limit) ?queue" and ?rest = "drop (nat limit) ?queue"
  have ok: "ServiceGetPendingJobs s limit = Inr ?js"
    by (simp add: ServiceGetPendingJobs_def GetPendingJobs_take)
  have whole: "?js @ ?rest = ?queue" by (rule append_take_drop_id)
  have members: "\<forall>j \<in> set ?js. Status j = JobStatusPending \<and> j \<in> set (jobs s)"
  proof
    fix j assume "j \<in> set ?js"
    then have "j \<in> set ?queue" by (rule in_set_takeD)
    then show "Status j = JobStatusPending \<and> j \<in> set (jobs s)" by simp
  qed
  have order: "sorted_wrt before_in_queue (?js @ ?rest)"
    unfolding whole by (rule sorted_pending)
  have all: "set (?js @ ?rest) = {j \<in> set (jobs s). Status j = JobStatusPending}"
    unfolding whole by auto
  have count: "length (?js @ ?rest)
      = length (filter (\<lambda>j. Status j = JobStatusPending) (jobs s))"
    unfolding whole by simp
  have room: "length ?js
      = min (nat limit) (length (filter (\<lambda>j. Status j = JobStatusPending) (jobs s)))"
    by (simp add: min.commute)
  from ok members order all count room
  show "\<exists>js rest. ServiceGetPendingJobs s limit = Inr js
       \<and> (\<forall>j \<in> set js. Status j = JobStatusPending \<and> j \<in> set (jobs s))
       \<and> sorted_wrt before_in_queue (js @ rest)
       \<and> set (js @ rest) = {j \<in> set (jobs s). Status j = JobStatusPending}
       \<and> length (js @ rest)
           = length (filter (\<lambda>j. Status j = JobStatusPending) (jobs s))
       \<and> length js
           = min (nat limit) (length (filter (\<lambda>j. Status j = JobStatusPending) (jobs s)))"
    by blast
next
  assume "3 \<le> limit"
  then show "ServiceGetPendingJobs abc_store limit = Inr [job_B, job_C, job_A]"
    by (rule abc_example)
qed

text \<open>The queue of A, B and C with room for two, for three, and with the limit \<open>-1\<close>.\<close>

theorem GetPendingJobs_order_witness:
  "ServiceGetPendingJobs abc_store 2 = Inr [job_B, job_C]
   \<and> Status job_B = JobStatusPending \<and> job_B \<in> set (jobs abc_store)
   \<and> before_in_queue job_B job_C \<and> before_in_queue job_C job_A
   \<and> ServiceGetPendingJobs abc_store 3 = Inr [job_B, job_C, job_A]
   \<and> ServiceGetPendingJobs abc_store (- 1) = Inr []"
proof -
  have e: "ServiceGetPendingJobs abc_store 2 = Inr [job_B, job_C]"
    "ServiceGetPendingJobs abc_store (- 1) = Inr []"
    by (simp_all add: ServiceGetPendingJobs_def GetPendingJobs_def abc_store_def job_A_def
        job_B_def job_C_def example_job_def pending_key_def less_eq_prod_def)
  have q: "Status job_B = JobStatusPending" "job_B \<in> set (jobs abc_store)"
    "before_in_queue job_B job_C" "before_in_queue job_C job_A"
    by (simp_all add: abc_store_def job_A_def job_B_def job_C_def example_job_def
        before_in_queue_def)
  show ?thesis
    using GetPendingJobs_order [where s = abc_store and limit = 2]
      GetPendingJobs_order [where s = abc_store and limit = 3]
      GetPendingJobs_order [where s = abc_store and limit = "- 1"] e q
    by simp
qed

section \<open>Rows and lookups\<close>

lemma find_SomeD: "find P xs = Some x \<Longrightarrow> P x \<and> x \<in> set xs"
  by (induction xs) (auto split: if_splits)

lemma GetByID_ID: "GetByID s k = Inr j \<Longrightarrow> ID j = k"
  unfolding GetByID_def by (auto split: option.splits dest: find_SomeD)

lemma has_job_GetByID: "has_job s k \<longleftrightarrow> (\<exists>j. GetByID s k = Inr j)"
  unfolding has_job_def GetByID_def
  by (auto split: option.splits simp: find_None_iff dest: find_SomeD)



lemma find_map_rows:
  assumes "\<And>j. ID (f j) = ID j"
  shows "find (\<lambda>j. ID j = k) (map (\<lambda>j. if ID j = i then f j else j) xs)
       = map_option (\<lambda>j. if ID j = i then f j else j) (find (\<lambda>j. ID j = k) xs)"
  using assms by (induction xs) auto

lemma GetByID_update_rows:
  assumes "\<And>j. ID (f j) = ID j"
  shows "GetByID (update_rows i f s) k
       = (case GetByID s k of Inl e \<Rightarrow> Inl e | Inr j \<Rightarrow> Inr (if k = i then f j else j))"
proof (cases "find (\<lambda>j. ID j = k) (jobs s)")
  case None
  then show ?thesis
    by (simp add: GetByID_def update_rows_def find_map_rows [of f, OF assms])
next
  case (Some j)
  then have "ID j = k" by (auto dest: find_SomeD)
  with Some show ?thesis
    by (simp add: GetByID_def update_rows_def find_map_rows [of f, OF assms])
qed

lemma results_update_rows [simp]: "results (update_rows i f s) = results s"
  by (simp add: update_rows_def)

lemma jobs_update_rows:
  "jobs (update_rows i f s) = map (\<lambda>j. if ID j = i then f j else j) (jobs s)"
  by (simp add: update_rows_def)

lemma update_rows_absent: "\<not> has_job s i \<Longrightarrow> map (\<lambda>j. if ID j = i then f j else j) (jobs s) = jobs s"
  by (auto simp: has_job_def intro: map_idI)

lemma ID_status_update [simp]: "ID (status_update st msg now j) = ID j"
  by (simp add: status_update_def split: JobStatus.splits option.splits)

lemma ID_row_effect [simp]: "ID (row_effect now p j) = ID j"
  by (cases p) simp_all

lemma UpdateStatus_found:
  "GetByID s i = Inr j \<Longrightarrow>
     UpdateStatus i st msg now s = Inr (update_rows i (status_update st msg now) s)"
  by (auto simp: UpdateStatus_def has_job_GetByID)

lemma GetByID_status_update:
  "GetByID (update_rows i (status_update st msg now) s) k
     = (case GetByID s k of Inl e \<Rightarrow> Inl e
        | Inr j \<Rightarrow> Inr (if k = i then status_update st msg now j else j))"
  by (rule GetByID_update_rows) simp

section \<open>What the writes of the goroutine do\<close>

lemma jobs_ignore_UpdateStatus:
  "jobs (ignore_error s (UpdateStatus i st msg now s))
     = map (\<lambda>j. if ID j = i then status_update st msg now j else j) (jobs s)"
  by (simp add: ignore_error_def UpdateStatus_def jobs_update_rows update_rows_absent)

lemma results_ignore_UpdateStatus [simp]:
  "results (ignore_error s (UpdateStatus i st msg now s)) = results s"
  by (simp add: ignore_error_def UpdateStatus_def)

lemma jobs_ignore_Increment:
  "jobs (ignore_error s (IncrementRetryCount i s))
     = map (\<lambda>j. if ID j = i then j\<lparr>RetryCount := RetryCount j + 1\<rparr> else j) (jobs s)"
  by (simp add: ignore_error_def IncrementRetryCount_def jobs_update_rows update_rows_absent)

lemma results_ignore_Increment [simp]:
  "results (ignore_error s (IncrementRetryCount i s)) = results s"
  by (simp add: ignore_error_def IncrementRetryCount_def)

lemma jobs_processJob_step:
  "jobs (fst (processJob_step now u d oc jid s p))
     = map (\<lambda>j. if ID j = jid then row_effect now p j else j) (jobs s)"
  by (cases p)
    (auto simp: jobs_ignore_UpdateStatus jobs_ignore_Increment Let_def UpdateStatus_def
      IncrementRetryCount_def jobs_update_rows update_rows_absent ResultCreate_def
      ignore_error_def split: sum.splits if_splits cong: if_cong)

lemma results_processJob_step:
  "results (fst (processJob_step now u d oc jid s p)) = results s
   \<or> (\<exists>job resp r. p = AtSaveResult job resp \<and> has_job s jid \<and> JobID r = jid
         \<and> results (fst (processJob_step now u d oc jid s p)) = results s @ [r]
         \<and> snd (processJob_step now u d oc jid s p) = Some AtSetCompleted)"
  by (cases p)
    (auto simp: UpdateStatus_def IncrementRetryCount_def ResultCreate_def Let_def
      ignore_error_def split: sum.splits if_splits)

section \<open>Lists of goroutines\<close>

lemma set_update_distinct_key:
  assumes "distinct (map fst ts)" "i < length ts" "ts ! i = (k, p)"
    and "t \<in> set (ts[i := (k, p')])"
  shows "t = (k, p') \<or> (t \<in> set ts \<and> fst t \<noteq> k)"
proof -
  from assms(4) obtain n where n: "n < length ts" "t = ts[i := (k, p')] ! n"
    by (auto simp: in_set_conv_nth)
  show ?thesis
  proof (cases "n = i")
    case True
    with n assms(2) show ?thesis by simp
  next
    case False
    with n have t: "t = ts ! n" by simp
    have "map fst ts ! n \<noteq> map fst ts ! i"
      using assms(1,2) n(1) False nth_eq_iff_index_eq [of "map fst ts" n i] by simp
    then have "fst t \<noteq> k" using t n(1) assms(2,3) by simp
    with t n(1) show ?thesis by auto
  qed
qed

lemma set_remove_distinct_key:
  assumes "distinct (map fst ts)" "i < length ts" "ts ! i = (k, p)"
    and "t \<in> set (take i ts @ drop (Suc i) ts)"
  shows "t \<in> set ts \<and> fst t \<noteq> k"
proof -
  have ts: "ts = take i ts @ (k, p) # drop (Suc i) ts"
    using assms(2,3) by (metis id_take_nth_drop)
  have "distinct (map fst (take i ts @ (k, p) # drop (Suc i) ts))"
    using assms(1) ts by simp
  then have "k \<notin> fst ` set (take i ts @ drop (Suc i) ts)"
    by auto
  moreover have "t \<in> set ts" using assms(4) by (auto dest: in_set_takeD in_set_dropD)
  ultimately show ?thesis using assms(4) by (metis imageI)
qed

lemma map_fst_update_key:
  "i < length ts \<Longrightarrow> ts ! i = (k, p) \<Longrightarrow> map fst (ts[i := (k, p')]) = map fst ts"
  by (simp add: map_update list_update_same_conv)

lemma distinct_remove_key:
  "distinct (map fst ts) \<Longrightarrow> distinct (map fst (take i ts @ drop (Suc i) ts))"
proof -
  assume d: "distinct (map fst ts)"
  have "map fst (take i ts @ drop (Suc i) ts)
      = take i (map fst ts) @ drop (Suc i) (map fst ts)"
    by (simp add: take_map drop_map)
  moreover have "distinct (take i (map fst ts) @ drop (Suc i) (map fst ts))"
    using d by (auto simp: set_take_disj_set_drop_if_distinct dest: in_set_takeD in_set_dropD)
  ultimately show ?thesis by simp
qed

section \<open>One step of the system, event by event\<close>

lemma SubmitJob_Inr:
  assumes "SubmitJob newID now doc req userID s = Inr (job, s')"
  shows "\<not> has_job s newID \<and> jobs s' = jobs s @ [job] \<and> results s' = results s
       \<and> ID job = newID \<and> UserID job = userID \<and> Status job = JobStatusPending
       \<and> RetryCount job = 0 \<and> MaxRetries job = 3 \<and> ProgressPercentage job = 0
       \<and> CreatedAt job = now \<and> StartedAt job = None \<and> CompletedAt job = None
       \<and> ErrorMessage job = None"
  using assms
  by (auto simp: SubmitJob_def Create_def Let_def split: sum.splits if_splits)

lemma jobs_finish_call:
  "jobs (finish_call now c s)
     = (case c of
          CancelAtUpdate jobID \<Rightarrow>
            map (\<lambda>j. if ID j = jobID then status_update JobStatusCancelled None now j else j)
              (jobs s)
        | DeleteAtDelete jobID \<Rightarrow> filter (\<lambda>j. ID j \<noteq> jobID) (jobs s))"
proof (cases c)
  case (CancelAtUpdate jobID)
  then show ?thesis
    by (simp add: CancelJob_update_def UpdateStatus_def ignore_error_def jobs_update_rows
        update_rows_absent)
next
  case (DeleteAtDelete jobID)
  have "filter (\<lambda>j. ID j \<noteq> jobID) (jobs s) = jobs s" if "\<not> has_job s jobID"
    using that by (auto simp: has_job_def filter_id_conv)
  then show ?thesis
    by (simp add: DeleteAtDelete DeleteJob_delete_def Delete_def ignore_error_def)
qed

lemma results_finish_call:
  "results (finish_call now c s)
     = (case c of
          CancelAtUpdate jobID \<Rightarrow> results s
        | DeleteAtDelete jobID \<Rightarrow>
            if has_job s jobID then filter (\<lambda>r. JobID r \<noteq> jobID) (results s)
            else results s)"
  by (cases c)
    (simp_all add: CancelJob_update_def UpdateStatus_def DeleteJob_delete_def Delete_def
      ignore_error_def)

declare finish_call.simps [simp del]

lemma Finish_step:
  assumes "i < length (calls sys)"
  shows "db (sys_step (Finish i) sys) = finish_call (clock sys) (calls sys ! i) (db sys)"
    and "tasks (sys_step (Finish i) sys) = tasks sys"
    and "next_uuid (sys_step (Finish i) sys) = next_uuid sys"
    and "clock (sys_step (Finish i) sys) = clock sys"
  using assms by simp_all

lemma Cancel_step:
  "db (sys_step (Cancel jobID userID) sys) = db sys"
  "tasks (sys_step (Cancel jobID userID) sys) = tasks sys"
  "next_uuid (sys_step (Cancel jobID userID) sys) = next_uuid sys"
  "clock (sys_step (Cancel jobID userID) sys) = clock sys"
  by (simp_all split: option.splits)

lemma DeleteEv_step:
  "db (sys_step (DeleteEv jobID userID) sys) = db sys"
  "tasks (sys_step (DeleteEv jobID userID) sys) = tasks sys"
  "next_uuid (sys_step (DeleteEv jobID userID) sys) = next_uuid sys"
  "clock (sys_step (DeleteEv jobID userID) sys) = clock sys"
  by (simp_all split: option.splits)

lemma Dispatch_step:
  assumes "i < length (tasks sys)" "tasks sys ! i = (jid, p)"
  shows "db (sys_step (Dispatch i d oc) sys)
           = fst (processJob_step (clock sys) (next_uuid sys) d oc jid (db sys) p)"
    and "tasks (sys_step (Dispatch i d oc) sys)
           = (case snd (processJob_step (clock sys) (next_uuid sys) d oc jid (db sys) p) of
                None \<Rightarrow> take i (tasks sys) @ drop (Suc i) (tasks sys)
              | Some p' \<Rightarrow> (tasks sys)[i := (jid, p')])"
    and "next_uuid (sys_step (Dispatch i d oc) sys) = Suc (next_uuid sys)"
    and "clock (sys_step (Dispatch i d oc) sys) = clock sys"
  using assms by (auto split: prod.splits option.splits)

lemma tasks_after_Dispatch:
  assumes "i < length (tasks sys)" "tasks sys ! i = (jid, p)"
    and "t \<in> set (tasks (sys_step (Dispatch i d oc) sys))"
  shows "(\<exists>p'. snd (processJob_step (clock sys) (next_uuid sys) d oc jid (db sys) p) = Some p'
            \<and> t = (jid, p'))
       \<or> t \<in> set (tasks sys)"
proof (cases "snd (processJob_step (clock sys) (next_uuid sys) d oc jid (db sys) p)")
  case None
  with assms(3) have "t \<in> set (take i (tasks sys) @ drop (Suc i) (tasks sys))"
    unfolding Dispatch_step [OF assms(1,2)] by simp
  then show ?thesis by (auto dest: in_set_takeD in_set_dropD)
next
  case (Some p')
  with assms(3) have "t \<in> set ((tasks sys)[i := (jid, p')])"
    unfolding Dispatch_step [OF assms(1,2)] by simp
  then have "t \<in> insert (jid, p') (set (tasks sys))"
    using set_update_subset_insert [of "tasks sys" i "(jid, p')"] by (rule subsetD [rotated])
  with Some show ?thesis by simp
qed

lemma ProcessNextJob_Some:
  assumes "ProcessNextJob s = Inr (Some jobID)"
  shows "\<exists>j \<in> set (jobs s). ID j = jobID \<and> Status j = JobStatusPending"
proof -
  let ?queue = "sort_key pending_key (filter (\<lambda>j. Status j = JobStatusPending) (jobs s))"
  from assms obtain job rest where job: "take (nat 1) ?queue = job # rest" "ID job = jobID"
    by (auto simp: ProcessNextJob_def ServiceGetPendingJobs_def GetPendingJobs_take
        split: list.splits)
  have "job \<in> set (take (nat 1) ?queue)" unfolding job(1) by simp
  then have "job \<in> set ?queue" by (rule in_set_takeD)
  with job(2) show ?thesis by auto
qed

lemma ProcessNext_step:
  "db (sys_step ProcessNext sys) = db sys"
  "next_uuid (sys_step ProcessNext sys) = next_uuid sys"
  "clock (sys_step ProcessNext sys) = clock sys"
  "tasks (sys_step ProcessNext sys) = tasks sys
   \<or> (\<exists>j \<in> set (jobs (db sys)). Status j = JobStatusPending
         \<and> tasks (sys_step ProcessNext sys) = tasks sys @ [(ID j, AtGetJob)])"
proof -
  show "db (sys_step ProcessNext sys) = db sys"
    "next_uuid (sys_step ProcessNext sys) = next_uuid sys"
    "clock (sys_step ProcessNext sys) = clock sys"
    by (simp_all split: sum.splits option.splits)
  show "tasks (sys_step ProcessNext sys) = tasks sys
   \<or> (\<exists>j \<in> set (jobs (db sys)). Status j = JobStatusPending
         \<and> tasks (sys_step ProcessNext sys) = tasks sys @ [(ID j, AtGetJob)])"
  proof (cases "ProcessNextJob (db sys)")
    case (Inl err)
    then show ?thesis by simp
  next
    case (Inr found)
    show ?thesis
    proof (cases found)
      case None
      with Inr show ?thesis by simp
    next
      case (Some jobID)
      from ProcessNextJob_Some [OF Inr [unfolded Some]] obtain j where
        "j \<in> set (jobs (db sys))" "ID j = jobID" "Status j = JobStatusPending" by blast
      with Inr Some show ?thesis by auto
    qed
  qed
qed

lemma map_ID_rows:
  "(\<And>j. ID (f j) = ID j) \<Longrightarrow> map ID (map (\<lambda>j. if ID j = i then f j else j) xs) = map ID xs"
  by (induction xs) auto

section \<open>Identifiers\<close>

lemma base_inv_step:
  assumes inv: "base_inv sys"
  shows "base_inv (sys_step e sys)"
proof (cases e)
  case (Tick d)
  with inv show ?thesis by (simp add: base_inv_def)
next
  case (Submit req userID doc)
  show ?thesis
  proof (cases "SubmitJob (next_uuid sys) (clock sys) doc req userID (db sys)")
    case (Inl err)
    with Submit inv show ?thesis by simp
  next
    case (Inr a)
    obtain job s' where a: "a = (job, s')" by (cases a)
    note f = SubmitJob_Inr [OF Inr [unfolded a]]
    have "ID job \<notin> ID ` set (jobs (db sys))" "ID job \<notin> fst ` set (tasks sys)"
      using inv f by (auto simp: base_inv_def)
    with inv f show ?thesis
      unfolding Submit by (auto simp: Inr a base_inv_def less_Suc_eq)
  qed
next
  case (Cancel jobID userID)
  show ?thesis using inv unfolding Cancel base_inv_def Cancel_step .
next
  case (DeleteEv jobID userID)
  show ?thesis using inv unfolding DeleteEv base_inv_def DeleteEv_step .
next
  case (Finish i)
  show ?thesis
  proof (cases "i < length (calls sys)")
    case False
    with Finish inv show ?thesis by simp
  next
    case True
    note st = Finish_step [OF True]
    let ?s' = "finish_call (clock sys) (calls sys ! i) (db sys)"
    have ids: "set (map ID (jobs ?s')) \<subseteq> set (map ID (jobs (db sys)))
        \<and> distinct (map ID (jobs ?s'))"
    proof (cases "calls sys ! i")
      case (CancelAtUpdate jobID)
      have "map ID (jobs ?s') = map ID (jobs (db sys))"
        unfolding jobs_finish_call CancelAtUpdate call.case by (rule map_ID_rows) simp
      with inv show ?thesis by (simp add: base_inv_def)
    next
      case (DeleteAtDelete jobID)
      have "jobs ?s' = filter (\<lambda>j. ID j \<noteq> jobID) (jobs (db sys))"
        by (simp add: jobs_finish_call DeleteAtDelete)
      with inv show ?thesis by (auto simp: base_inv_def distinct_map_filter)
    qed
    have n1: "\<forall>j \<in> set (jobs ?s'). ID j < next_uuid sys"
    proof
      fix j assume "j \<in> set (jobs ?s')"
      then have "ID j \<in> set (map ID (jobs ?s'))" by simp
      then have "ID j \<in> set (map ID (jobs (db sys)))" using ids by blast
      then obtain j0 where "j0 \<in> set (jobs (db sys))" "ID j0 = ID j" by auto
      with inv show "ID j < next_uuid sys" by (auto simp: base_inv_def)
    qed
    have n2: "\<forall>r \<in> set (results ?s'). JobID r < next_uuid sys"
      using inv by (auto simp: base_inv_def results_finish_call split: call.splits if_splits)
    show ?thesis
      unfolding Finish base_inv_def st using inv n1 n2 ids by (simp add: base_inv_def)
  qed
next
  case (Dispatch i d oc)
  show ?thesis
  proof (cases "i < length (tasks sys)")
    case False
    with Dispatch inv show ?thesis by simp
  next
    case True
    obtain jid p where t: "tasks sys ! i = (jid, p)" by (cases "tasks sys ! i")
    note st = Dispatch_step [OF True t, of d oc]
    let ?r = "processJob_step (clock sys) (next_uuid sys) d oc jid (db sys) p"
    have jid: "jid < next_uuid sys"
      using inv t nth_mem [OF True] by (auto simp: base_inv_def)
    have ids: "map ID (jobs (fst ?r)) = map ID (jobs (db sys))"
      by (simp add: jobs_processJob_step map_ID_rows)
    have n1: "distinct (map ID (jobs (fst ?r)))"
      using inv ids by (simp add: base_inv_def)
    have n1': "\<forall>j \<in> set (jobs (fst ?r)). ID j < Suc (next_uuid sys)"
    proof
      fix j assume "j \<in> set (jobs (fst ?r))"
      then have "ID j \<in> set (map ID (jobs (fst ?r)))" by simp
      then have "ID j \<in> set (map ID (jobs (db sys)))" by (simp only: ids)
      then obtain j0 where "j0 \<in> set (jobs (db sys))" "ID j0 = ID j" by auto
      with inv show "ID j < Suc (next_uuid sys)"
        by (auto simp: base_inv_def less_Suc_eq)
    qed
    have n2: "\<forall>r \<in> set (results (fst ?r)). JobID r < Suc (next_uuid sys)"
      using results_processJob_step [of "clock sys" "next_uuid sys" d oc jid "db sys" p]
        inv jid by (auto simp: base_inv_def less_Suc_eq)
    have n4: "\<forall>t \<in> set (tasks (sys_step (Dispatch i d oc) sys)). fst t < Suc (next_uuid sys)"
      using inv jid unfolding st
      by (auto simp: base_inv_def less_Suc_eq split: option.splits
          dest!: in_set_takeD in_set_dropD set_update_subset_insert [THEN subsetD])
    show ?thesis
      unfolding Dispatch base_inv_def st(1,3) using n1 n1' n2 n4 by simp
  qed
next
  case ProcessNext
  have "\<forall>t \<in> set (tasks (sys_step ProcessNext sys)). fst t < next_uuid sys"
    using ProcessNext_step(4) [of sys] inv by (auto simp: base_inv_def)
  with inv show ?thesis
    unfolding ProcessNext base_inv_def ProcessNext_step(1,2) by simp
qed

lemma base_inv_init: "base_inv init_system"
  by (simp add: base_inv_def init_system_def empty_store_def)


section \<open>One goroutine for each job\<close>

text \<open>Every event but a call of \<open>ProcessNextJob\<close> keeps the jobs of the goroutines in
  flight distinct.\<close>

lemma one_dispatch_step:
  assumes base: "base_inv sys" and od: "one_dispatch sys" and e: "e \<noteq> ProcessNext"
  shows "one_dispatch (sys_step e sys)"
proof (cases e)
  case (Tick d)
  with od show ?thesis by (simp add: one_dispatch_def)
next
  case (Submit req userID doc)
  show ?thesis
  proof (cases "SubmitJob (next_uuid sys) (clock sys) doc req userID (db sys)")
    case (Inl err)
    with Submit od show ?thesis by simp
  next
    case (Inr a)
    obtain job s' where a: "a = (job, s')" by (cases a)
    note f = SubmitJob_Inr [OF Inr [unfolded a]]
    have "ID job \<notin> fst ` set (tasks sys)"
      using base f by (auto simp: base_inv_def)
    with od show ?thesis
      unfolding Submit by (simp add: Inr a one_dispatch_def)
  qed
next
  case (Cancel jobID userID)
  show ?thesis using od unfolding Cancel one_dispatch_def Cancel_step .
next
  case (DeleteEv jobID userID)
  show ?thesis using od unfolding DeleteEv one_dispatch_def DeleteEv_step .
next
  case (Finish i)
  with od show ?thesis by (simp add: one_dispatch_def)
next
  case (Dispatch i d oc)
  show ?thesis
  proof (cases "i < length (tasks sys)")
    case False
    with Dispatch od show ?thesis by simp
  next
    case True
    obtain jid p where t: "tasks sys ! i = (jid, p)" by (cases "tasks sys ! i")
    note st = Dispatch_step [OF True t, of d oc]
    let ?r = "processJob_step (clock sys) (next_uuid sys) d oc jid (db sys) p"
    have d: "distinct (map fst (tasks sys))" using od by (simp add: one_dispatch_def)
    show ?thesis
    proof (cases "snd ?r")
      case None
      then have "tasks (sys_step (Dispatch i d oc) sys)
                   = take i (tasks sys) @ drop (Suc i) (tasks sys)"
        unfolding st by simp
      then show ?thesis
        unfolding Dispatch one_dispatch_def by (simp only: distinct_remove_key [OF d])
    next
      case (Some p')
      then show ?thesis
        unfolding Dispatch one_dispatch_def st by (simp add: map_fst_update_key [OF True t] d)
    qed
  qed
next
  case ProcessNext
  with e show ?thesis by simp
qed

lemma one_dispatch_init: "one_dispatch init_system"
  by (simp add: one_dispatch_def init_system_def)

lemma one_dispatch_states:
  "base_inv sys \<Longrightarrow> one_dispatch sys \<Longrightarrow> ProcessNext \<notin> set es \<Longrightarrow>
     list_all one_dispatch (states es sys)"
proof (induction es arbitrary: sys)
  case Nil
  then show ?case by simp
next
  case (Cons e es)
  from Cons.prems(3) have e: "e \<noteq> ProcessNext" and es: "ProcessNext \<notin> set es" by auto
  have "list_all one_dispatch (states es (sys_step e sys))"
    using base_inv_step [OF Cons.prems(1)] one_dispatch_step [OF Cons.prems(1,2) e] es
    by (rule Cons.IH)
  with Cons.prems(2) show ?case by simp
qed

section \<open>Retry counters\<close>

lemma RetryCount_status_update [simp]:
  "RetryCount (status_update st msg now j) = RetryCount j"
  by (simp add: status_update_def split: JobStatus.splits option.splits)

lemma MaxRetries_status_update [simp]:
  "MaxRetries (status_update st msg now j) = MaxRetries j"
  by (simp add: status_update_def split: JobStatus.splits option.splits)




lemma rows_processJob_step:
  assumes "j' \<in> set (jobs (fst (processJob_step now u d oc jid s p)))"
  obtains j where "j \<in> set (jobs s)" "j' = (if ID j = jid then row_effect now p j else j)"
  using assms unfolding jobs_processJob_step by auto




section \<open>Results\<close>

lemma has_job_map_ID: "has_job s k \<longleftrightarrow> k \<in> set (map ID (jobs s))"
  by (auto simp: has_job_def)

lemma has_job_processJob_step [simp]:
  "has_job (fst (processJob_step now u d oc jid s p)) k = has_job s k"
  by (simp only: has_job_map_ID jobs_processJob_step map_ID_rows [of "row_effect now p", OF ID_row_effect])

lemma has_result_mono_step:
  "has_result s k \<Longrightarrow> has_result (fst (processJob_step now u d oc jid s p)) k"
  using results_processJob_step [of now u d oc jid s p] by (auto simp: has_result_def)

lemma has_result_new_step:
  assumes "has_result (fst (processJob_step now u d oc jid s p)) k" "\<not> has_result s k"
  shows "k = jid \<and> (\<exists>job resp. p = AtSaveResult job resp)
       \<and> snd (processJob_step now u d oc jid s p) = Some AtSetCompleted"
  using results_processJob_step [of now u d oc jid s p] assms by (auto simp: has_result_def)

lemma to_AtSetCompleted:
  assumes "snd (processJob_step now u d oc jid s p) = Some AtSetCompleted"
  shows "(\<exists>job resp. p = AtSaveResult job resp) \<and> has_result (fst (processJob_step now u d oc jid s p)) jid"
  using assms
  by (cases p) (auto simp: Let_def ResultCreate_def has_result_def split: sum.splits if_splits)

lemma from_AtSetCompleted [simp]:
  "snd (processJob_step now u d oc jid s AtSetCompleted) = None"
  by simp

lemma Status_row_effect_Completed:
  "Status (row_effect now p j) = JobStatusCompleted \<Longrightarrow>
     p = AtSetCompleted \<or> Status j = JobStatusCompleted"
  by (cases p) (auto simp: status_update_def)

lemma success_path_next:
  assumes "snd (processJob_step now u d oc jid s p) = Some p'" "on_success_path p'"
    and "on_success_path p \<longrightarrow> Status j = JobStatusProcessing \<or> Status j = JobStatusCancelled"
  shows "Status (row_effect now p j) = JobStatusProcessing
       \<or> Status (row_effect now p j) = JobStatusCancelled"
  using assms
  by (cases p) (auto simp: Let_def status_update_def split: sum.splits if_splits)


lemma result_inv_step:
  assumes base: "base_inv sys" and od: "one_dispatch sys" and inv: "result_inv sys"
  shows "result_inv (sys_step e sys)"
proof (cases e)
  case (Tick d)
  with inv show ?thesis by (simp add: result_inv_def)
next
  case (Submit req userID doc)
  show ?thesis
  proof (cases "SubmitJob (next_uuid sys) (clock sys) doc req userID (db sys)")
    case (Inl err)
    with Submit inv show ?thesis by simp
  next
    case (Inr a)
    obtain job s' where a: "a = (job, s')" by (cases a)
    note f = SubmitJob_Inr [OF Inr [unfolded a]]
    have fresh: "\<forall>t \<in> set (tasks sys). fst t \<noteq> ID job" "\<not> has_result (db sys) (ID job)"
      using base f by (auto simp: base_inv_def has_result_def)
    have hr: "has_result s' k = has_result (db sys) k" for k
      using f by (simp add: has_result_def)
    have hj: "has_job s' k \<longleftrightarrow> has_job (db sys) k \<or> k = ID job" for k
      using f by (auto simp: has_job_def)
    show ?thesis
      unfolding Submit using inv f fresh
      by (auto simp: Inr a result_inv_def hr hj)
  qed
next
  case (Cancel jobID userID)
  show ?thesis using inv unfolding Cancel result_inv_def Cancel_step .
next
  case (DeleteEv jobID userID)
  show ?thesis using inv unfolding DeleteEv result_inv_def DeleteEv_step .
next
  case (Finish i)
  show ?thesis
  proof (cases "i < length (calls sys)")
    case False
    with Finish inv show ?thesis by simp
  next
    case True
    note st = Finish_step [OF True]
    let ?s' = "finish_call (clock sys) (calls sys ! i) (db sys)"
    show ?thesis
    proof (cases "calls sys ! i")
      case (CancelAtUpdate jobID)
      have hr: "has_result ?s' k = has_result (db sys) k" for k
        by (simp add: has_result_def results_finish_call CancelAtUpdate)
      have "map ID (jobs ?s') = map ID (jobs (db sys))"
        by (simp add: jobs_finish_call CancelAtUpdate map_ID_rows)
      then have hj: "has_job ?s' k = has_job (db sys) k" for k
        by (simp only: has_job_map_ID)
      have rows: "\<exists>j \<in> set (jobs (db sys)). ID j' = ID j
          \<and> (if ID j = jobID then Status j' = JobStatusCancelled else j' = j)"
        if "j' \<in> set (jobs ?s')" for j'
        using that by (auto simp: jobs_finish_call CancelAtUpdate status_update_def)
      have R1: "(Status j' = JobStatusCompleted \<longrightarrow> has_result ?s' (ID j'))
              \<and> (has_result ?s' (ID j') \<longrightarrow>
                   Status j' = JobStatusProcessing \<or> Status j' = JobStatusCancelled
                   \<or> Status j' = JobStatusCompleted)"
        if j': "j' \<in> set (jobs ?s')" for j'
        using rows [OF j'] inv by (auto simp: result_inv_def hr split: if_splits)
      have R2: "distinct (map JobID (results ?s'))"
        using inv by (simp add: result_inv_def results_finish_call CancelAtUpdate)
      have R3: "(if snd t = AtSetCompleted
                 then has_job ?s' (fst t) \<longrightarrow> has_result ?s' (fst t)
                 else \<not> has_result ?s' (fst t))
              \<and> (on_success_path (snd t) \<longrightarrow>
                   (\<forall>j' \<in> set (jobs ?s'). ID j' = fst t \<longrightarrow>
                      Status j' = JobStatusProcessing \<or> Status j' = JobStatusCancelled))"
        if t: "t \<in> set (tasks sys)" for t
      proof -
        have old: "(if snd t = AtSetCompleted
                 then has_job (db sys) (fst t) \<longrightarrow> has_result (db sys) (fst t)
                 else \<not> has_result (db sys) (fst t))
              \<and> (on_success_path (snd t) \<longrightarrow>
                   (\<forall>j \<in> set (jobs (db sys)). ID j = fst t \<longrightarrow>
                      Status j = JobStatusProcessing \<or> Status j = JobStatusCancelled))"
          using inv t by (simp add: result_inv_def)
        have "Status j' = JobStatusProcessing \<or> Status j' = JobStatusCancelled"
          if "on_success_path (snd t)" "j' \<in> set (jobs ?s')" "ID j' = fst t" for j'
          using rows [OF that(2)] that(1,3) old by (auto split: if_splits)
        then show ?thesis using old by (simp add: hr hj)
      qed
      show ?thesis
        unfolding Finish result_inv_def st using R1 R2 R3 by blast
    next
      case (DeleteAtDelete jobID)
      show ?thesis
      proof (cases "has_job (db sys) jobID")
        case False
        then have "jobs ?s' = jobs (db sys)" "results ?s' = results (db sys)"
          by (auto simp: jobs_finish_call results_finish_call DeleteAtDelete has_job_def
              filter_id_conv)
        then have "has_job ?s' = has_job (db sys)" "has_result ?s' = has_result (db sys)"
          by (simp_all add: has_job_def has_result_def fun_eq_iff)
        with \<open>jobs ?s' = jobs (db sys)\<close> \<open>results ?s' = results (db sys)\<close> inv
        show ?thesis
          unfolding Finish result_inv_def st by simp
      next
        case has: True
        have hr: "has_result ?s' k \<longleftrightarrow> has_result (db sys) k \<and> k \<noteq> jobID" for k
          using has by (auto simp: has_result_def results_finish_call DeleteAtDelete)
        have hj: "has_job ?s' k \<longleftrightarrow> has_job (db sys) k \<and> k \<noteq> jobID" for k
          by (auto simp: has_job_def jobs_finish_call DeleteAtDelete)
        have rows: "set (jobs ?s') = {j \<in> set (jobs (db sys)). ID j \<noteq> jobID}"
          by (auto simp: jobs_finish_call DeleteAtDelete)
        have res: "results ?s' = filter (\<lambda>r. JobID r \<noteq> jobID) (results (db sys))"
          using has by (simp add: results_finish_call DeleteAtDelete)
        show ?thesis
          unfolding Finish result_inv_def st using inv
          by (simp add: hr hj rows res result_inv_def distinct_map_filter)
      qed
    qed
  qed
next
  case (Dispatch i d oc)
  show ?thesis
  proof (cases "i < length (tasks sys)")
    case False
    with Dispatch inv show ?thesis by simp
  next
    case True
    obtain jid p where t: "tasks sys ! i = (jid, p)" by (cases "tasks sys ! i")
    note st = Dispatch_step [OF True t, of d oc]
    let ?r = "processJob_step (clock sys) (next_uuid sys) d oc jid (db sys) p"
    let ?s = "db sys"
    have tin: "(jid, p) \<in> set (tasks sys)" using nth_mem [OF True] t by simp
    have dt: "distinct (map fst (tasks sys))" and dj: "distinct (map ID (jobs (db sys)))"
      using base od by (simp_all add: base_inv_def one_dispatch_def)
    have own1: "if p = AtSetCompleted then has_job ?s jid \<longrightarrow> has_result ?s jid
                else \<not> has_result ?s jid"
      using inv tin by (fastforce simp: result_inv_def)
    have own2: "Status j = JobStatusProcessing \<or> Status j = JobStatusCancelled"
      if "on_success_path p" "j \<in> set (jobs ?s)" "ID j = jid" for j
      using inv tin that by (fastforce simp: result_inv_def)
    have hr_other: "has_result (fst ?r) k = has_result ?s k" if "k \<noteq> jid" for k
      using has_result_mono_step [of ?s k "clock sys" "next_uuid sys" d oc jid p]
        has_result_new_step [of "clock sys" "next_uuid sys" d oc jid ?s p k] that by blast
    have R1: "(Status j' = JobStatusCompleted \<longrightarrow> has_result (fst ?r) (ID j'))
            \<and> (has_result (fst ?r) (ID j') \<longrightarrow>
                 Status j' = JobStatusProcessing \<or> Status j' = JobStatusCancelled
                 \<or> Status j' = JobStatusCompleted)"
      if j': "j' \<in> set (jobs (fst ?r))" for j'
    proof -
      from j' obtain j where j: "j \<in> set (jobs ?s)"
        "j' = (if ID j = jid then row_effect (clock sys) p j else j)"
        by (rule rows_processJob_step)
      have old: "(Status j = JobStatusCompleted \<longrightarrow> has_result ?s (ID j))
            \<and> (has_result ?s (ID j) \<longrightarrow>
                 Status j = JobStatusProcessing \<or> Status j = JobStatusCancelled
                 \<or> Status j = JobStatusCompleted)"
        using inv j(1) by (simp add: result_inv_def)
      show ?thesis
      proof (cases "ID j = jid")
        case False
        then have "j' = j" using j(2) by simp
        with old hr_other [of "ID j"] False show ?thesis by simp
      next
        case True
        then have j'eq: "j' = row_effect (clock sys) p j" "ID j' = jid" using j(2) by simp_all
        have hj: "has_job ?s jid" using j(1) True by (auto simp: has_job_def)
        show ?thesis
        proof (cases "p = AtSetCompleted")
          case True
          then have "has_result ?s jid" using own1 hj by simp
          then have "has_result (fst ?r) jid" by (rule has_result_mono_step)
          then show ?thesis using j'eq True by (simp add: status_update_def)
        next
          case False
          then have nr: "\<not> has_result ?s jid" using own1 by simp
          then have nc: "Status j \<noteq> JobStatusCompleted" using old \<open>ID j = jid\<close> by auto
          have a: "Status j' \<noteq> JobStatusCompleted"
            using Status_row_effect_Completed [of "clock sys" p j] False nc j'eq by auto
          have b: "Status j' = JobStatusProcessing \<or> Status j' = JobStatusCancelled"
            if h: "has_result (fst ?r) jid"
          proof -
            from has_result_new_step [OF h nr] obtain job resp where
              p: "p = AtSaveResult job resp" by blast
            then have "j' = j" using j'eq by simp
            moreover have "on_success_path p" using p by simp
            ultimately show ?thesis using own2 [OF _ j(1) \<open>ID j = jid\<close>] by simp
          qed
          show ?thesis using a b j'eq by auto
        qed
      qed
    qed
    have R2: "distinct (map JobID (results (fst ?r)))"
    proof -
      have old: "distinct (map JobID (results ?s))" using inv by (simp add: result_inv_def)
      from results_processJob_step [of "clock sys" "next_uuid sys" d oc jid ?s p]
      show ?thesis
      proof
        assume "results (fst ?r) = results ?s"
        with old show ?thesis by simp
      next
        assume "\<exists>job resp r. p = AtSaveResult job resp \<and> has_job ?s jid \<and> JobID r = jid
          \<and> results (fst ?r) = results ?s @ [r] \<and> snd ?r = Some AtSetCompleted"
        then obtain job resp r where p: "p = AtSaveResult job resp" "JobID r = jid"
          "results (fst ?r) = results ?s @ [r]" by blast
        have "\<not> has_result ?s jid" using own1 p by simp
        then have "jid \<notin> JobID ` set (results ?s)" by (auto simp: has_result_def)
        with old p show ?thesis by simp
      qed
    qed
    have R3: "(if snd t' = AtSetCompleted
               then has_job (fst ?r) (fst t') \<longrightarrow> has_result (fst ?r) (fst t')
               else \<not> has_result (fst ?r) (fst t'))
            \<and> (on_success_path (snd t') \<longrightarrow>
                 (\<forall>j' \<in> set (jobs (fst ?r)). ID j' = fst t' \<longrightarrow>
                    Status j' = JobStatusProcessing \<or> Status j' = JobStatusCancelled))"
      if t': "t' \<in> set (tasks (sys_step (Dispatch i d oc) sys))" for t'
    proof -
      have "(\<exists>p'. snd ?r = Some p' \<and> t' = (jid, p')) \<or> (t' \<in> set (tasks sys) \<and> fst t' \<noteq> jid)"
      proof (cases "snd ?r")
        case None
        with t' have "t' \<in> set (take i (tasks sys) @ drop (Suc i) (tasks sys))"
          unfolding st by simp
        from set_remove_distinct_key [OF dt True t this] show ?thesis by simp
      next
        case (Some p')
        with t' have "t' \<in> set ((tasks sys)[i := (jid, p')])" unfolding st by simp
        from set_update_distinct_key [OF dt True t this] Some show ?thesis by auto
      qed
      then show ?thesis
      proof
        assume o: "t' \<in> set (tasks sys) \<and> fst t' \<noteq> jid"
        have old: "(if snd t' = AtSetCompleted
               then has_job ?s (fst t') \<longrightarrow> has_result ?s (fst t')
               else \<not> has_result ?s (fst t'))
            \<and> (on_success_path (snd t') \<longrightarrow>
                 (\<forall>j \<in> set (jobs ?s). ID j = fst t' \<longrightarrow>
                    Status j = JobStatusProcessing \<or> Status j = JobStatusCancelled))"
          using inv o [THEN conjunct1] by (simp add: result_inv_def)
        have rows: "j' \<in> set (jobs ?s)" if "j' \<in> set (jobs (fst ?r))" "ID j' = fst t'" for j'
        proof -
          from that(1) obtain j where j: "j \<in> set (jobs ?s)"
            "j' = (if ID j = jid then row_effect (clock sys) p j else j)"
            by (rule rows_processJob_step)
          have "ID j' = ID j" using j(2) by simp
          then have "ID j \<noteq> jid" using that(2) o by simp
          then show ?thesis using j by simp
        qed
        show ?thesis using old rows o by (simp add: hr_other)
      next
        assume "\<exists>p'. snd ?r = Some p' \<and> t' = (jid, p')"
        then obtain p' where p': "snd ?r = Some p'" "t' = (jid, p')" by blast
        have a: "if p' = AtSetCompleted then has_result (fst ?r) jid
                 else \<not> has_result (fst ?r) jid"
        proof (cases "p' = AtSetCompleted")
          case True
          then show ?thesis using to_AtSetCompleted [of "clock sys" "next_uuid sys" d oc jid ?s p] p'
            by simp
        next
          case False
          have "p \<noteq> AtSetCompleted" using p' by auto
          then have nr: "\<not> has_result ?s jid" using own1 by simp
          have "\<not> has_result (fst ?r) jid"
            using has_result_new_step [of "clock sys" "next_uuid sys" d oc jid ?s p jid] nr p' False
            by auto
          with False show ?thesis by simp
        qed
        have b: "Status j' = JobStatusProcessing \<or> Status j' = JobStatusCancelled"
          if sp: "on_success_path p'" and j': "j' \<in> set (jobs (fst ?r))" "ID j' = jid" for j'
        proof -
          from j'(1) obtain j where j: "j \<in> set (jobs ?s)"
            "j' = (if ID j = jid then row_effect (clock sys) p j else j)"
            by (rule rows_processJob_step)
          have "ID j' = ID j" using j(2) by simp
          then have id: "ID j = jid" using j'(2) by simp
          then have "j' = row_effect (clock sys) p j" using j(2) by simp
          moreover have "on_success_path p \<longrightarrow>
              Status j = JobStatusProcessing \<or> Status j = JobStatusCancelled"
            using own2 [OF _ j(1) id] by simp
          ultimately show ?thesis using success_path_next [OF p'(1) sp] by simp
        qed
        show ?thesis using a b p' by auto
      qed
    qed
    show ?thesis
      unfolding Dispatch result_inv_def st(1) using R1 R2 R3 by blast
  qed
next
  case ProcessNext
  have new: "\<not> has_result (db sys) (ID j)"
    if "j \<in> set (jobs (db sys))" "Status j = JobStatusPending" for j
    using inv that by (auto simp: result_inv_def)
  have R3: "(if snd t = AtSetCompleted
             then has_job (db sys) (fst t) \<longrightarrow> has_result (db sys) (fst t)
             else \<not> has_result (db sys) (fst t))
          \<and> (on_success_path (snd t) \<longrightarrow>
               (\<forall>j \<in> set (jobs (db sys)). ID j = fst t \<longrightarrow>
                  Status j = JobStatusProcessing \<or> Status j = JobStatusCancelled))"
    if t: "t \<in> set (tasks (sys_step ProcessNext sys))" for t
  proof (cases "t \<in> set (tasks sys)")
    case True
    with inv show ?thesis by (simp add: result_inv_def)
  next
    case False
    with t ProcessNext_step(4) [of sys] obtain j where
      "j \<in> set (jobs (db sys))" "Status j = JobStatusPending" "t = (ID j, AtGetJob)"
      by auto
    with new show ?thesis by simp
  qed
  from inv have "(\<forall>j \<in> set (jobs (db sys)).
         (Status j = JobStatusCompleted \<longrightarrow> has_result (db sys) (ID j))
       \<and> (has_result (db sys) (ID j) \<longrightarrow>
            Status j = JobStatusProcessing \<or> Status j = JobStatusCancelled
            \<or> Status j = JobStatusCompleted))
     \<and> distinct (map JobID (results (db sys)))"
    by (simp add: result_inv_def)
  with R3 show ?thesis
    unfolding ProcessNext result_inv_def ProcessNext_step(1) by blast
qed

lemma result_inv_init: "result_inv init_system"
  by (simp add: result_inv_def init_system_def empty_store_def)

lemma result_inv_run:
  "base_inv sys \<Longrightarrow> result_inv sys \<Longrightarrow> list_all one_dispatch (states es sys) \<Longrightarrow>
     result_inv (run es sys)"
  unfolding run_def
  by (induction es arbitrary: sys) (simp_all add: base_inv_step result_inv_step)

lemma GetByID_processJob_step:
  "GetByID (fst (processJob_step now u d oc jid s p)) k
     = (case GetByID s k of Inl e \<Rightarrow> Inl e
        | Inr j \<Rightarrow> Inr (if k = jid then row_effect now p j else j))"
proof -
  have "jobs (fst (processJob_step now u d oc jid s p)) = jobs (update_rows jid (row_effect now p) s)"
    by (simp add: jobs_processJob_step jobs_update_rows)
  then have "GetByID (fst (processJob_step now u d oc jid s p)) k
      = GetByID (update_rows jid (row_effect now p) s) k"
    by (simp add: GetByID_def)
  then show ?thesis by (simp add: GetByID_update_rows)
qed

lemma completed_inv_step:
  assumes base: "base_inv sys" and inv: "completed_inv sys"
  shows "completed_inv (sys_step e sys)"
proof (cases e)
  case (Tick d)
  with inv show ?thesis by (simp add: completed_inv_def)
next
  case (Submit req userID doc)
  show ?thesis
  proof (cases "SubmitJob (next_uuid sys) (clock sys) doc req userID (db sys)")
    case (Inl err)
    with Submit inv show ?thesis by simp
  next
    case (Inr a)
    obtain job s' where a: "a = (job, s')" by (cases a)
    note f = SubmitJob_Inr [OF Inr [unfolded a]]
    have fresh: "\<forall>t \<in> set (tasks sys). fst t \<noteq> ID job"
      using base f by (auto simp: base_inv_def)
    have hr: "has_result s' k = has_result (db sys) k" for k
      using f by (simp add: has_result_def)
    have hj: "has_job s' k \<longleftrightarrow> has_job (db sys) k \<or> k = ID job" for k
      using f by (auto simp: has_job_def)
    show ?thesis
      unfolding Submit using inv f fresh
      by (auto simp: Inr a completed_inv_def hr hj)
  qed
next
  case (Cancel jobID userID)
  show ?thesis using inv unfolding Cancel completed_inv_def Cancel_step .
next
  case (DeleteEv jobID userID)
  show ?thesis using inv unfolding DeleteEv completed_inv_def DeleteEv_step .
next
  case (Finish i)
  show ?thesis
  proof (cases "i < length (calls sys)")
    case False
    with Finish inv show ?thesis by simp
  next
    case True
    note st = Finish_step [OF True]
    let ?s' = "finish_call (clock sys) (calls sys ! i) (db sys)"
    show ?thesis
    proof (cases "calls sys ! i")
      case (CancelAtUpdate jobID)
      have hr: "has_result ?s' k = has_result (db sys) k" for k
        by (simp add: has_result_def results_finish_call CancelAtUpdate)
      have "map ID (jobs ?s') = map ID (jobs (db sys))"
        by (simp add: jobs_finish_call CancelAtUpdate map_ID_rows)
      then have hj: "has_job ?s' k = has_job (db sys) k" for k
        by (simp only: has_job_map_ID)
      have rows: "\<exists>j \<in> set (jobs (db sys)). ID j' = ID j
          \<and> (if ID j = jobID then Status j' = JobStatusCancelled else j' = j)"
        if "j' \<in> set (jobs ?s')" for j'
        using that by (auto simp: jobs_finish_call CancelAtUpdate status_update_def)
      have F: "has_result ?s' (ID j')"
        if "j' \<in> set (jobs ?s')" "Status j' = JobStatusCompleted" for j'
        using rows [OF that(1)] that(2) inv
        by (auto simp: completed_inv_def hr split: if_splits)
      have G: "has_result ?s' (fst t)"
        if "t \<in> set (tasks sys)" "snd t = AtSetCompleted" "has_job ?s' (fst t)" for t
        using that inv by (simp add: completed_inv_def hr hj)
      show ?thesis
        unfolding Finish completed_inv_def st using F G by blast
    next
      case (DeleteAtDelete jobID)
      show ?thesis
      proof (cases "has_job (db sys) jobID")
        case False
        then have "jobs ?s' = jobs (db sys)" "results ?s' = results (db sys)"
          by (auto simp: jobs_finish_call results_finish_call DeleteAtDelete has_job_def
              filter_id_conv)
        then have "has_job ?s' = has_job (db sys)" "has_result ?s' = has_result (db sys)"
          by (simp_all add: has_job_def has_result_def fun_eq_iff)
        with \<open>jobs ?s' = jobs (db sys)\<close> inv
        show ?thesis
          unfolding Finish completed_inv_def st by simp
      next
        case has: True
        have hr: "has_result ?s' k \<longleftrightarrow> has_result (db sys) k \<and> k \<noteq> jobID" for k
          using has by (auto simp: has_result_def results_finish_call DeleteAtDelete)
        have hj: "has_job ?s' k \<longleftrightarrow> has_job (db sys) k \<and> k \<noteq> jobID" for k
          by (auto simp: has_job_def jobs_finish_call DeleteAtDelete)
        have rows: "set (jobs ?s') = {j \<in> set (jobs (db sys)). ID j \<noteq> jobID}"
          by (auto simp: jobs_finish_call DeleteAtDelete)
        show ?thesis
          unfolding Finish completed_inv_def st using inv
          by (simp add: hr hj rows completed_inv_def)
      qed
    qed
  qed
next
  case (Dispatch i d oc)
  show ?thesis
  proof (cases "i < length (tasks sys)")
    case False
    with Dispatch inv show ?thesis by simp
  next
    case True
    obtain jid p where t: "tasks sys ! i = (jid, p)" by (cases "tasks sys ! i")
    note st = Dispatch_step [OF True t, of d oc]
    let ?r = "processJob_step (clock sys) (next_uuid sys) d oc jid (db sys) p"
    let ?s = "db sys"
    have tin: "(jid, p) \<in> set (tasks sys)" using nth_mem [OF True] t by simp
    have F: "has_result (fst ?r) (ID j')"
      if j': "j' \<in> set (jobs (fst ?r))" and c: "Status j' = JobStatusCompleted" for j'
    proof -
      from j' obtain j where j: "j \<in> set (jobs ?s)"
        "j' = (if ID j = jid then row_effect (clock sys) p j else j)"
        by (rule rows_processJob_step)
      have id: "ID j' = ID j" using j(2) by simp
      have "has_result ?s (ID j)"
      proof (cases "ID j = jid \<and> p = AtSetCompleted")
        case True
        then have "has_job ?s jid" using j(1) by (auto simp: has_job_def)
        then have "has_result ?s jid"
          using inv tin True by (fastforce simp: completed_inv_def)
        with True show ?thesis by simp
      next
        case False
        have "Status j = JobStatusCompleted"
          using c j(2) False Status_row_effect_Completed [of "clock sys" p j]
          by (auto split: if_splits)
        then show ?thesis using inv j(1) by (simp add: completed_inv_def)
      qed
      then show ?thesis unfolding id by (rule has_result_mono_step)
    qed
    have G: "has_result (fst ?r) (fst t')"
      if t': "t' \<in> set (tasks (sys_step (Dispatch i d oc) sys))"
        and c: "snd t' = AtSetCompleted" and hj: "has_job (fst ?r) (fst t')" for t'
    proof -
      from tasks_after_Dispatch [OF True t t'] show ?thesis
      proof
        assume "\<exists>p'. snd ?r = Some p' \<and> t' = (jid, p')"
        then obtain p' where p': "snd ?r = Some p'" "t' = (jid, p')" by blast
        with c have "snd ?r = Some AtSetCompleted" by simp
        from to_AtSetCompleted [OF this] show ?thesis using p' by simp
      next
        assume o: "t' \<in> set (tasks sys)"
        have "has_job ?s (fst t')" using hj by simp
        then have "has_result ?s (fst t')" using inv o c by (simp add: completed_inv_def)
        then show ?thesis by (rule has_result_mono_step)
      qed
    qed
    show ?thesis
      unfolding Dispatch completed_inv_def st(1) using F G by blast
  qed
next
  case ProcessNext
  have "snd t \<noteq> AtSetCompleted \<or> t \<in> set (tasks sys)"
    if "t \<in> set (tasks (sys_step ProcessNext sys))" for t
    using ProcessNext_step(4) [of sys] that by auto
  with inv show ?thesis
    unfolding ProcessNext completed_inv_def ProcessNext_step(1) by blast
qed

lemma completed_inv_init: "completed_inv init_system"
  by (simp add: completed_inv_def init_system_def empty_store_def)

lemma completed_inv_run: "base_inv sys \<Longrightarrow> completed_inv sys \<Longrightarrow> completed_inv (run es sys)"
  unfolding run_def
  by (induction es arbitrary: sys) (simp_all add: base_inv_step completed_inv_step)

section \<open>The bound on the retry count\<close>




section \<open>Results and completed jobs\<close>

text \<open>
  Claim C5, as the code has it. In every state the system reaches, a job whose status is
  completed has a result row. As long as no job has two goroutines of \<open>processJob\<close> in
  flight at once, a job that has a result row is processing, cancelled or completed
  (never pending or failed), and no job has two result rows; every run without a call of
  \<open>ProcessNextJob\<close> is of this kind. The result is inserted before the status is written,
  so a result can be read while its job is not yet completed.
\<close>

theorem completed_jobs_have_one_result:
  "(\<forall>j \<in> set (jobs (db (run es init_system))).
       Status j = JobStatusCompleted \<longrightarrow> has_result (db (run es init_system)) (ID j))
   \<and> (list_all one_dispatch (states es init_system) \<longrightarrow>
        (\<forall>j \<in> set (jobs (db (run es init_system))).
            has_result (db (run es init_system)) (ID j) \<longrightarrow>
              Status j = JobStatusProcessing \<or> Status j = JobStatusCancelled
              \<or> Status j = JobStatusCompleted)
      \<and> distinct (map JobID (results (db (run es init_system)))))
   \<and> (ProcessNext \<notin> set es \<longrightarrow> list_all one_dispatch (states es init_system))"
proof (intro conjI impI)
  have "completed_inv (run es init_system)"
    by (rule completed_inv_run [OF base_inv_init completed_inv_init])
  then show "\<forall>j \<in> set (jobs (db (run es init_system))).
       Status j = JobStatusCompleted \<longrightarrow> has_result (db (run es init_system)) (ID j)"
    by (simp add: completed_inv_def)
next
  assume od: "list_all one_dispatch (states es init_system)"
  have inv: "result_inv (run es init_system)"
    by (rule result_inv_run [OF base_inv_init result_inv_init od])
  from inv show "\<forall>j \<in> set (jobs (db (run es init_system))).
            has_result (db (run es init_system)) (ID j) \<longrightarrow>
              Status j = JobStatusProcessing \<or> Status j = JobStatusCancelled
              \<or> Status j = JobStatusCompleted"
    by (simp add: result_inv_def)
  from inv show "distinct (map JobID (results (db (run es init_system))))"
    by (simp add: result_inv_def)
next
  assume "ProcessNext \<notin> set es"
  then show "list_all one_dispatch (states es init_system)"
    by (rule one_dispatch_states [OF base_inv_init one_dispatch_init])
qed

theorem completed_jobs_have_one_result_witness:
  "ProcessNext \<notin> set events_cancel_overwritten
   \<and> list_all one_dispatch (states events_cancel_overwritten init_system)
   \<and> map Status (jobs (db (run events_cancel_overwritten init_system))) = [JobStatusCompleted]
   \<and> map ID (jobs (db (run events_cancel_overwritten init_system))) = [1]
   \<and> map JobID (results (db (run events_cancel_overwritten init_system))) = [1]"
proof -
  have n: "ProcessNext \<notin> set events_cancel_overwritten"
    by (simp add: events_cancel_overwritten_def events_cancelled_in_flight_def
        events_to_ocr_def step_ok_def)
  have e: "map Status (jobs (db (run events_cancel_overwritten init_system))) = [JobStatusCompleted]"
    "map ID (jobs (db (run events_cancel_overwritten init_system))) = [1]"
    "map JobID (results (db (run events_cancel_overwritten init_system))) = [1]"
    by code_simp+
  show ?thesis
    using completed_jobs_have_one_result [of events_cancel_overwritten] n e by simp
qed

text \<open>
  The state between the two writes: the result is there and \<open>GetJobResult\<close> returns it,
  and the job is still processing. And with two goroutines for one job: both save a
  result and the completed job has two; or the first completes the job and the second
  then writes it failed, a failed job with a result.
\<close>

theorem result_before_completed_counterexample:
  "map Status (jobs (db (run events_result_saved init_system))) = [JobStatusProcessing]
   \<and> map ID (jobs (db (run events_result_saved init_system))) = [1]
   \<and> map JobID (results (db (run events_result_saved init_system))) = [1]
   \<and> GetJobResult (db (run events_result_saved init_system)) 1 42
       = Inr \<lparr>ResultID = 6, JobID = 1, ResultDocumentID = 7, RawText = ''text'',
               MarkdownText = ''# text'', ProcessingTimeMs = 5, NumPages = 1,
               ResultCreatedAt = 1\<rparr>
   \<and> map Status (jobs (db (run events_two_results init_system))) = [JobStatusCompleted]
   \<and> map JobID (results (db (run events_two_results init_system))) = [1, 1]
   \<and> map Status (jobs (db (run events_result_then_failed init_system))) = [JobStatusFailed]
   \<and> map JobID (results (db (run events_result_then_failed init_system))) = [1]"
  by code_simp

section \<open>The completion time\<close>

lemma completed_at_row_effect:
  "terminal (Status j) \<longrightarrow> CompletedAt j \<noteq> None \<Longrightarrow>
     terminal (Status (row_effect now p j)) \<longrightarrow> CompletedAt (row_effect now p j) \<noteq> None"
  by (cases p) (auto simp: status_update_def terminal_def)

lemma completed_at_step:
  assumes inv: "\<forall>j \<in> set (jobs (db sys)). terminal (Status j) \<longrightarrow> CompletedAt j \<noteq> None"
  shows "\<forall>j \<in> set (jobs (db (sys_step e sys))). terminal (Status j) \<longrightarrow> CompletedAt j \<noteq> None"
proof (cases e)
  case (Tick d)
  with inv show ?thesis by simp
next
  case (Submit req userID doc)
  show ?thesis
  proof (cases "SubmitJob (next_uuid sys) (clock sys) doc req userID (db sys)")
    case (Inl err)
    with Submit inv show ?thesis by simp
  next
    case (Inr a)
    obtain job s' where a: "a = (job, s')" by (cases a)
    note f = SubmitJob_Inr [OF Inr [unfolded a]]
    show ?thesis
      unfolding Submit using inv f by (auto simp: Inr a terminal_def)
  qed
next
  case (Cancel jobID userID)
  show ?thesis using inv unfolding Cancel Cancel_step .
next
  case (DeleteEv jobID userID)
  show ?thesis using inv unfolding DeleteEv DeleteEv_step .
next
  case (Finish i)
  show ?thesis
  proof (cases "i < length (calls sys)")
    case False
    with Finish inv show ?thesis by simp
  next
    case True
    note st = Finish_step [OF True]
    show ?thesis
      unfolding Finish st using inv
      by (auto simp: jobs_finish_call status_update_def split: call.splits)
  qed
next
  case (Dispatch i d oc)
  show ?thesis
  proof (cases "i < length (tasks sys)")
    case False
    with Dispatch inv show ?thesis by simp
  next
    case True
    obtain jid p where t: "tasks sys ! i = (jid, p)" by (cases "tasks sys ! i")
    note st = Dispatch_step [OF True t, of d oc]
    show ?thesis
      unfolding Dispatch st(1)
    proof
      fix j' assume "j' \<in> set (jobs (fst (processJob_step (clock sys) (next_uuid sys) d oc jid (db sys) p)))"
      then obtain j where j: "j \<in> set (jobs (db sys))"
        "j' = (if ID j = jid then row_effect (clock sys) p j else j)"
        by (rule rows_processJob_step)
      have "terminal (Status j) \<longrightarrow> CompletedAt j \<noteq> None" using inv j(1) by simp
      then show "terminal (Status j') \<longrightarrow> CompletedAt j' \<noteq> None"
        using j(2) completed_at_row_effect [of j "clock sys" p] by (simp split: if_splits)
    qed
  qed
next
  case ProcessNext
  show ?thesis using inv unfolding ProcessNext ProcessNext_step(1) .
qed

text \<open>
  Claim C2, as the code has it. In every state the system reaches, a job whose status is
  completed, failed or cancelled has \<open>completed_at\<close> set.
\<close>

theorem terminal_jobs_have_completed_at:
  "\<forall>j \<in> set (jobs (db (run es init_system))). terminal (Status j) \<longrightarrow> CompletedAt j \<noteq> None"
proof -
  have steps: "\<forall>j \<in> set (jobs (db (fold sys_step es sys))).
          terminal (Status j) \<longrightarrow> CompletedAt j \<noteq> None"
    if "\<forall>j \<in> set (jobs (db sys)). terminal (Status j) \<longrightarrow> CompletedAt j \<noteq> None" for sys
    using that
  proof (induction es arbitrary: sys)
    case Nil
    then show ?case by simp
  next
    case (Cons e es)
    have "\<forall>j \<in> set (jobs (db (sys_step e sys))).
            terminal (Status j) \<longrightarrow> CompletedAt j \<noteq> None"
      by (rule completed_at_step [OF Cons.prems])
    then have "\<forall>j \<in> set (jobs (db (fold sys_step es (sys_step e sys)))).
            terminal (Status j) \<longrightarrow> CompletedAt j \<noteq> None"
      by (rule Cons.IH)
    then show ?case by simp
  qed
  have "\<forall>j \<in> set (jobs (db init_system)).
          terminal (Status j) \<longrightarrow> CompletedAt j \<noteq> None"
    by (simp add: init_system_def empty_store_def)
  from steps [OF this] show ?thesis unfolding run_def .
qed

theorem terminal_jobs_have_completed_at_witness:
  "map Status (jobs (db (run events_failed_once init_system))) = [JobStatusFailed]
   \<and> terminal JobStatusFailed
   \<and> map CompletedAt (jobs (db (run events_failed_once init_system))) = [Some 1]"
proof -
  have e: "map Status (jobs (db (run events_failed_once init_system))) = [JobStatusFailed]"
    "map CompletedAt (jobs (db (run events_failed_once init_system))) = [Some 1]"
    by code_simp+
  show ?thesis
    using terminal_jobs_have_completed_at [of events_failed_once] e
    by (simp add: terminal_def)
qed

text \<open>After a failed attempt that is retried, the job is pending and still carries the
  completion time of the failure.\<close>

theorem pending_with_completed_at_counterexample:
  "map Status (jobs (db (run events_requeued init_system))) = [JobStatusPending]
   \<and> map CompletedAt (jobs (db (run events_requeued init_system))) = [Some 1]"
  by code_simp

section \<open>Cancellation and the dispatch\<close>

text \<open>
  Claim C1, as the code has it. A goroutine of \<open>processJob\<close> that reads its job and finds
  a status other than pending (cancelled, for one) ends without writing anything: the
  store is as before and no result is created. A goroutine that is already past this
  check does not look again: its write of completed lands on the row whatever status the
  row has then.
\<close>

theorem dispatch_skips_job_not_pending:
  "(i < length (tasks sys) \<and> tasks sys ! i = (jobID, AtGetJob)
      \<and> GetByID (db sys) jobID = Inr j \<and> Status j \<noteq> JobStatusPending \<longrightarrow>
        db (sys_step (Dispatch i d oc) sys) = db sys
      \<and> tasks (sys_step (Dispatch i d oc) sys) = take i (tasks sys) @ drop (Suc i) (tasks sys))
   \<and> (i < length (tasks sys) \<and> tasks sys ! i = (jobID, AtSetCompleted)
      \<and> GetByID (db sys) jobID = Inr j \<longrightarrow>
        GetByID (db (sys_step (Dispatch i d oc) sys)) jobID
          = Inr (j\<lparr>Status := JobStatusCompleted, CompletedAt := Some (clock sys),
                   ProgressPercentage := 100\<rparr>))"
proof (intro conjI impI)
  assume a: "i < length (tasks sys) \<and> tasks sys ! i = (jobID, AtGetJob)
      \<and> GetByID (db sys) jobID = Inr j \<and> Status j \<noteq> JobStatusPending"
  then have i: "i < length (tasks sys)" and t: "tasks sys ! i = (jobID, AtGetJob)" by simp_all
  note st = Dispatch_step [OF i t, of d oc]
  show "db (sys_step (Dispatch i d oc) sys) = db sys"
    unfolding st using a by simp
  show "tasks (sys_step (Dispatch i d oc) sys) = take i (tasks sys) @ drop (Suc i) (tasks sys)"
    unfolding st using a by simp
next
  assume a: "i < length (tasks sys) \<and> tasks sys ! i = (jobID, AtSetCompleted)
      \<and> GetByID (db sys) jobID = Inr j"
  then have i: "i < length (tasks sys)" and t: "tasks sys ! i = (jobID, AtSetCompleted)"
    by simp_all
  note st = Dispatch_step [OF i t, of d oc]
  show "GetByID (db (sys_step (Dispatch i d oc) sys)) jobID
          = Inr (j\<lparr>Status := JobStatusCompleted, CompletedAt := Some (clock sys),
                   ProgressPercentage := 100\<rparr>)"
    unfolding st GetByID_processJob_step using a by (simp add: status_update_def)
qed

theorem dispatch_skips_job_not_pending_witness:
  "tasks (run events_cancelled_pending init_system) = [(1, AtGetJob)]
   \<and> GetByID (db (run events_cancelled_pending init_system)) 1
       = Inr ((example_job 1 0 0)\<lparr>Status := JobStatusCancelled, CompletedAt := Some 1,
                ProgressPercentage := 100\<rparr>)
   \<and> db (sys_step step_ok (run events_cancelled_pending init_system))
       = db (run events_cancelled_pending init_system)
   \<and> tasks (sys_step step_ok (run events_cancelled_pending init_system)) = []
   \<and> tasks (run events_result_saved init_system) = [(1, AtSetCompleted)]
   \<and> map Status (jobs (db (sys_step step_ok (run events_result_saved init_system))))
       = [JobStatusCompleted]"
proof -
  let ?sys = "run events_cancelled_pending init_system"
  let ?j = "(example_job 1 0 0)\<lparr>Status := JobStatusCancelled, CompletedAt := Some 1,
                ProgressPercentage := 100\<rparr>"
  have h: "tasks ?sys = [(1, AtGetJob)]" "GetByID (db ?sys) 1 = Inr ?j"
    by code_simp+
  have h2: "tasks (run events_result_saved init_system) = [(1, AtSetCompleted)]"
    "map Status (jobs (db (sys_step step_ok (run events_result_saved init_system))))
       = [JobStatusCompleted]"
    by code_simp+
  have st: "Status ?j \<noteq> JobStatusPending" by (simp add: example_job_def)
  show ?thesis
    using dispatch_skips_job_not_pending [of 0 ?sys 1 ?j "Inr example_document"
        "Inr example_response"] h h2 st
    by (simp add: step_ok_def)
qed

text \<open>The owner cancels while the OCR call is in flight; the goroutine then saves the
  result and overwrites cancelled with completed.\<close>

theorem cancelled_overwritten_counterexample:
  "map Status (jobs (db (run events_cancelled_in_flight init_system))) = [JobStatusCancelled]
   \<and> results (db (run events_cancelled_in_flight init_system)) = []
   \<and> run events_cancel_overwritten init_system
       = run [Tick 5, step_ok, step_ok, step_ok] (run events_cancelled_in_flight init_system)
   \<and> map Status (jobs (db (run events_cancel_overwritten init_system))) = [JobStatusCompleted]
   \<and> map JobID (results (db (run events_cancel_overwritten init_system))) = [1]"
  by code_simp

section \<open>Failure of the OCR call\<close>

text \<open>
  Claim C3, as the code has it. When the OCR call fails, the goroutine first writes the
  job as failed, with the error message, the completion time and progress 0. If the
  retry count it read at the start is below the maximum it then increments the count of
  the row, writes the status pending (leaving message and completion time in place) and
  sleeps ten seconds before it starts \<open>processJob\<close> again; otherwise it ends, and the job
  stays failed. The three writes are taken one after the other, at the times \<open>t1\<close>,
  \<open>t2\<close> and \<open>t3\<close>, with no other write to the job in between.
\<close>

theorem engine_failure_then_retry:
  assumes "GetByID s jobID = Inr j"
  shows "let r1 = processJob_step t1 u1 d1 o1 jobID s (AtOCRFailed job msg);
             r2 = processJob_step t2 u2 d2 o2 jobID (fst r1) AtIncrementRetry;
             r3 = processJob_step t3 u3 d3 o3 jobID (fst r2) AtSetPending
         in GetByID (fst r1) jobID
              = Inr (j\<lparr>Status := JobStatusFailed, CompletedAt := Some t1,
                       ErrorMessage := Some msg, ProgressPercentage := 0\<rparr>)
          \<and> snd r1 = (if RetryCount job < MaxRetries job then Some AtIncrementRetry else None)
          \<and> GetByID (fst r2) jobID
              = Inr (j\<lparr>Status := JobStatusFailed, CompletedAt := Some t1,
                       ErrorMessage := Some msg, ProgressPercentage := 0,
                       RetryCount := RetryCount j + 1\<rparr>)
          \<and> snd r2 = Some AtSetPending
          \<and> GetByID (fst r3) jobID
              = Inr (j\<lparr>Status := JobStatusPending, CompletedAt := Some t1,
                       ErrorMessage := Some msg, ProgressPercentage := 0,
                       RetryCount := RetryCount j + 1\<rparr>)
          \<and> snd r3 = Some (AtSleep (t3 + 10 * Second))
          \<and> processJob_step t4 u4 d4 o4 jobID (fst r3) (AtSleep wake)
              = (fst r3, Some (if wake \<le> t4 then AtGetJob else AtSleep wake))"
  unfolding Let_def GetByID_processJob_step assms
  by (simp add: status_update_def Let_def)

theorem engine_failure_then_retry_witness:
  "GetByID (db (run (events_to_ocr @ [step_timeout]) init_system)) 1
     = Inr ((example_job 1 0 0)\<lparr>Status := JobStatusProcessing, StartedAt := Some 1\<rparr>)
   \<and> map Status (jobs (db (run events_failed_once init_system))) = [JobStatusFailed]
   \<and> tasks (run events_requeued init_system) = [(1, AtSleep (1 + 10 * Second))]
   \<and> GetByID (db (run events_requeued init_system)) 1
     = Inr ((example_job 1 0 0)\<lparr>Status := JobStatusPending, StartedAt := Some 1,
              CompletedAt := Some 1, ErrorMessage := Some ''OCR processing failed: timeout'',
              RetryCount := 1\<rparr>)"
proof -
  have h: "GetByID (db (run (events_to_ocr @ [step_timeout]) init_system)) 1
     = Inr ((example_job 1 0 0)\<lparr>Status := JobStatusProcessing, StartedAt := Some 1\<rparr>)"
    by code_simp
  have e: "map Status (jobs (db (run events_failed_once init_system))) = [JobStatusFailed]"
    "tasks (run events_requeued init_system) = [(1, AtSleep (1 + 10 * Second))]"
    "GetByID (db (run events_requeued init_system)) 1
     = Inr ((example_job 1 0 0)\<lparr>Status := JobStatusPending, StartedAt := Some 1,
              CompletedAt := Some 1, ErrorMessage := Some ''OCR processing failed: timeout'',
              RetryCount := 1\<rparr>)"
    by code_simp+
  show ?thesis
    using engine_failure_then_retry [OF h] h e by simp
qed

text \<open>Between the first write and the last the job is failed, with retry count 0 of 3.\<close>

theorem failed_before_retry_counterexample:
  "map Status (jobs (db (run (events_to_ocr @ [step_timeout]) init_system)))
     = [JobStatusProcessing]
   \<and> map Status (jobs (db (run events_failed_once init_system))) = [JobStatusFailed]
   \<and> map RetryCount (jobs (db (run events_failed_once init_system))) = [0]
   \<and> map MaxRetries (jobs (db (run events_failed_once init_system))) = [3]
   \<and> map Status (jobs (db (run events_requeued init_system))) = [JobStatusPending]"
  by code_simp

section \<open>Cancel\<close>

text \<open>
  Claim C6, and where the code departs from it. For a pending or processing job,
  \<open>CancelJob\<close> by the owner succeeds, sets the status to cancelled and \<open>completed_at\<close> to
  the current time, and leaves the other jobs and all results as they are. It does not
  leave the progress percentage as it is: \<open>UpdateStatus\<close> is called without an error
  message, and the UPDATE it builds then sets the progress to 100 for every status. The
  row after the call is the row before it with the new status, the completion time and
  progress 100. The UPDATE built for a call with an error message sets the progress to
  100 for completed only, and to 0 for cancelled.
\<close>

theorem CancelJob_sets_progress_to_100:
  assumes "GetByID s jobID = Inr job"
    and "UserID job = userID"
    and "Status job = JobStatusPending \<or> Status job = JobStatusProcessing"
  shows "\<exists>s'. CancelJob now s jobID userID = Inr s'
           \<and> GetByID s' jobID
               = Inr (job\<lparr>Status := JobStatusCancelled, CompletedAt := Some now,
                          ProgressPercentage := 100\<rparr>)
           \<and> (\<forall>k. k \<noteq> jobID \<longrightarrow> GetByID s' k = GetByID s k)
           \<and> results s' = results s
           \<and> status_update JobStatusCancelled (Some msg) now job
               = job\<lparr>Status := JobStatusCancelled, CompletedAt := Some now,
                     ErrorMessage := Some msg, ProgressPercentage := 0\<rparr>"
  using assms
  by (auto simp: CancelJob_def CancelJob_checks_def CancelJob_update_def UpdateStatus_found
      GetByID_status_update status_update_def split: sum.splits)

text \<open>Job A, pending with progress 0, cancelled by its owner at time 5.\<close>

theorem CancelJob_sets_progress_to_100_witness:
  "GetByID abc_store 1 = Inr job_A \<and> UserID job_A = 42 \<and> Status job_A = JobStatusPending
   \<and> ProgressPercentage job_A = 0
   \<and> GetByID (projr (CancelJob 5 abc_store 1 42)) 1
       = Inr (job_A\<lparr>Status := JobStatusCancelled, CompletedAt := Some 5,
                    ProgressPercentage := 100\<rparr>)
   \<and> GetByID (projr (CancelJob 5 abc_store 1 42)) 2 = Inr job_B
   \<and> results (projr (CancelJob 5 abc_store 1 42)) = []"
proof -
  have h: "GetByID abc_store 1 = Inr job_A" "UserID job_A = 42" "Status job_A = JobStatusPending"
    "ProgressPercentage job_A = 0"
    by code_simp+
  have e: "GetByID (projr (CancelJob 5 abc_store 1 42)) 1
       = Inr (job_A\<lparr>Status := JobStatusCancelled, CompletedAt := Some 5,
                    ProgressPercentage := 100\<rparr>)"
    "GetByID (projr (CancelJob 5 abc_store 1 42)) 2 = Inr job_B"
    "results (projr (CancelJob 5 abc_store 1 42)) = []"
    by code_simp+
  show ?thesis
    using CancelJob_sets_progress_to_100 [OF h(1) h(2), of 5] h e by simp
qed

text \<open>In the running system: the job that \<open>SubmitJob\<close> has created is pending with
  progress 0, and after the owner's \<open>CancelJob\<close> it is cancelled with progress 100.\<close>

theorem cancel_sets_progress_counterexample:
  "map Status (jobs (db (run [Submit example_request 42 (Inr example_document)] init_system)))
     = [JobStatusPending]
   \<and> map ProgressPercentage
        (jobs (db (run [Submit example_request 42 (Inr example_document)] init_system))) = [0]
   \<and> map Status (jobs (db (run events_cancelled_pending init_system))) = [JobStatusCancelled]
   \<and> map ProgressPercentage (jobs (db (run events_cancelled_pending init_system))) = [100]"
  by code_simp

section \<open>The start time\<close>

lemma GetByID_cong_jobs: "jobs s = jobs s' \<Longrightarrow> GetByID s k = GetByID s' k"
  by (simp add: GetByID_def)

lemma find_in_front: "find P xs = Some x \<Longrightarrow> find P (xs @ ys) = Some x"
  by (induction xs) (auto split: if_splits)

lemma GetByID_after_Submit:
  assumes "SubmitJob newID now doc req userID s = Inr (job, s')" "GetByID s k = Inr j"
  shows "GetByID s' k = Inr j"
  using assms SubmitJob_Inr [OF assms(1)]
  by (auto simp: GetByID_def find_in_front split: option.splits)

lemma find_filter_rows:
  "find (\<lambda>j. ID j = k) (filter (\<lambda>j. ID j \<noteq> i) xs)
     = (if k = i then None else find (\<lambda>j. ID j = k) xs)"
  by (induction xs) auto

lemma GetByID_after_finish_call:
  assumes "GetByID s k = Inr j" "GetByID (finish_call now c s) k = Inr j'"
  shows "StartedAt j' = StartedAt j"
proof (cases c)
  case (CancelAtUpdate jobID)
  have "jobs (finish_call now c s)
      = jobs (update_rows jobID (status_update JobStatusCancelled None now) s)"
    by (simp add: jobs_finish_call CancelAtUpdate jobs_update_rows)
  then have "GetByID (finish_call now c s) k
      = GetByID (update_rows jobID (status_update JobStatusCancelled None now) s) k"
    by (rule GetByID_cong_jobs)
  then show ?thesis
    using assms by (auto simp: GetByID_status_update status_update_def split: if_splits)
next
  case (DeleteAtDelete jobID)
  then show ?thesis
    using assms
    by (auto simp: GetByID_def jobs_finish_call find_filter_rows
        split: option.splits if_splits)
qed

text \<open>
  Claim C7, as the code has it. A step of the system leaves \<open>started_at\<close> of a job as it
  is, unless the step is the write of processing by a goroutine of that job, which sets
  it to the current time. Each dispatch of a job makes that write, the dispatch after a
  retry too, and the value of an earlier dispatch is overwritten.
\<close>

theorem started_at_written_by_each_dispatch:
  "(GetByID (db sys) jobID = Inr j \<and> GetByID (db (sys_step e sys)) jobID = Inr j' \<longrightarrow>
      StartedAt j' = StartedAt j
      \<or> (\<exists>i d oc job. e = Dispatch i d oc \<and> i < length (tasks sys)
            \<and> tasks sys ! i = (jobID, AtSetProcessing job)
            \<and> StartedAt j' = Some (clock sys)))
   \<and> (i < length (tasks sys) \<and> tasks sys ! i = (jobID, AtSetProcessing job)
        \<and> GetByID (db sys) jobID = Inr j \<longrightarrow>
      GetByID (db (sys_step (Dispatch i d oc) sys)) jobID
        = Inr (j\<lparr>Status := JobStatusProcessing, StartedAt := Some (clock sys)\<rparr>))"
proof (intro conjI impI)
  assume a: "GetByID (db sys) jobID = Inr j \<and> GetByID (db (sys_step e sys)) jobID = Inr j'"
  then have g: "GetByID (db sys) jobID = Inr j"
    and g': "GetByID (db (sys_step e sys)) jobID = Inr j'" by simp_all
  show "StartedAt j' = StartedAt j
      \<or> (\<exists>i d oc job. e = Dispatch i d oc \<and> i < length (tasks sys)
            \<and> tasks sys ! i = (jobID, AtSetProcessing job)
            \<and> StartedAt j' = Some (clock sys))"
  proof (cases e)
    case (Tick d)
    with g g' show ?thesis by simp
  next
    case (Submit req userID doc)
    show ?thesis
    proof (cases "SubmitJob (next_uuid sys) (clock sys) doc req userID (db sys)")
      case (Inl err)
      with Submit g g' show ?thesis by simp
    next
      case (Inr a)
      obtain job s' where a: "a = (job, s')" by (cases a)
      from GetByID_after_Submit [OF Inr [unfolded a] g] g' Submit Inr a
      show ?thesis by simp
    qed
  next
    case (Cancel cid userID)
    from g' have "GetByID (db sys) jobID = Inr j'" unfolding Cancel Cancel_step .
    with g show ?thesis by simp
  next
    case (DeleteEv did userID)
    from g' have "GetByID (db sys) jobID = Inr j'" unfolding DeleteEv DeleteEv_step .
    with g show ?thesis by simp
  next
    case (Finish n)
    show ?thesis
    proof (cases "n < length (calls sys)")
      case False
      with Finish g g' show ?thesis by simp
    next
      case True
      from g' have "GetByID (finish_call (clock sys) (calls sys ! n) (db sys)) jobID = Inr j'"
        unfolding Finish Finish_step [OF True] .
      from GetByID_after_finish_call [OF g this] show ?thesis by simp
    qed
  next
    case (Dispatch i d oc)
    show ?thesis
    proof (cases "i < length (tasks sys)")
      case False
      with Dispatch g g' show ?thesis by simp
    next
      case True
      obtain jid p where t: "tasks sys ! i = (jid, p)" by (cases "tasks sys ! i")
      note st = Dispatch_step [OF True t, of d oc]
      have j': "j' = (if jobID = jid then row_effect (clock sys) p j else j)"
        using g' unfolding Dispatch st GetByID_processJob_step g by simp
      show ?thesis
      proof (cases "jobID = jid \<and> (\<exists>job. p = AtSetProcessing job)")
        case True
        then obtain job where "jobID = jid" "p = AtSetProcessing job" by blast
        with j' t \<open>i < length (tasks sys)\<close> Dispatch show ?thesis
          by (auto simp: status_update_def)
      next
        case False
        then have "StartedAt j' = StartedAt j"
          using j' by (cases p) (auto simp: status_update_def)
        then show ?thesis by simp
      qed
    qed
  next
    case ProcessNext
    from g' have "GetByID (db sys) jobID = Inr j'" unfolding ProcessNext ProcessNext_step(1) .
    with g show ?thesis by simp
  qed
next
  assume a: "i < length (tasks sys) \<and> tasks sys ! i = (jobID, AtSetProcessing job)
        \<and> GetByID (db sys) jobID = Inr j"
  then have i: "i < length (tasks sys)"
    and t: "tasks sys ! i = (jobID, AtSetProcessing job)" by simp_all
  note st = Dispatch_step [OF i t, of d oc]
  show "GetByID (db (sys_step (Dispatch i d oc) sys)) jobID
        = Inr (j\<lparr>Status := JobStatusProcessing, StartedAt := Some (clock sys)\<rparr>)"
    unfolding st GetByID_processJob_step using a by (simp add: status_update_def)
qed

theorem started_at_written_by_each_dispatch_witness:
  "tasks (run (events_requeued @ [Tick (10 * Second), step_ok, step_ok]) init_system)
     = [(1, AtSetProcessing ((example_job 1 0 0)\<lparr>StartedAt := Some 1,
              CompletedAt := Some 1, ErrorMessage := Some ''OCR processing failed: timeout'',
              RetryCount := 1\<rparr>))]
   \<and> GetByID (db (run (events_requeued @ [Tick (10 * Second), step_ok, step_ok]) init_system)) 1
     = Inr ((example_job 1 0 0)\<lparr>StartedAt := Some 1,
              CompletedAt := Some 1, ErrorMessage := Some ''OCR processing failed: timeout'',
              RetryCount := 1\<rparr>)
   \<and> clock (run (events_requeued @ [Tick (10 * Second), step_ok, step_ok]) init_system)
     = 10000000001
   \<and> GetByID (db (sys_step step_ok
        (run (events_requeued @ [Tick (10 * Second), step_ok, step_ok]) init_system))) 1
     = Inr ((example_job 1 0 0)\<lparr>Status := JobStatusProcessing, StartedAt := Some 10000000001,
              CompletedAt := Some 1, ErrorMessage := Some ''OCR processing failed: timeout'',
              RetryCount := 1\<rparr>)"
proof -
  let ?sys = "run (events_requeued @ [Tick (10 * Second), step_ok, step_ok]) init_system"
  let ?j = "(example_job 1 0 0)\<lparr>StartedAt := Some 1,
              CompletedAt := Some 1, ErrorMessage := Some ''OCR processing failed: timeout'',
              RetryCount := 1\<rparr>"
  have h: "tasks ?sys = [(1, AtSetProcessing ?j)]" "GetByID (db ?sys) 1 = Inr ?j"
    "clock ?sys = 10000000001"
    by code_simp+
  show ?thesis
    using started_at_written_by_each_dispatch [where sys = ?sys and jobID = 1 and j = ?j
        and i = 0 and job = ?j and d = "Inr example_document" and oc = "Inr example_response"] h
    by (simp add: step_ok_def example_job_def)
qed

text \<open>The start time of the first attempt is replaced by that of the second.\<close>

theorem started_at_overwritten_counterexample:
  "map StartedAt (jobs (db (run events_to_ocr init_system))) = [Some 1]
   \<and> map StartedAt (jobs (db (run events_requeued init_system))) = [Some 1]
   \<and> map StartedAt (jobs (db (run events_redispatched init_system))) = [Some 10000000001]"
  by code_simp

section \<open>Ownership at the API\<close>

text \<open>
  Claim C9, as the code has it. For a caller who does not own the job, \<open>GetJob\<close> and
  \<open>GetJobResult\<close> answer exactly as for a job that does not exist. \<open>CancelJob\<close> and
  \<open>DeleteJob\<close> answer with the same status and code in both cases and with the message
  of the service, which is ``unauthorized: job does not belong to user'' in the one case
  and ``job not found'' in the other.
\<close>

theorem foreign_job_hidden_by_reads_only:
  assumes "GetByID s jobID = Inr job" and "UserID job \<noteq> userID"
    and "GetByID s missingID = Inl err"
  shows "JobHandler_GetJob s jobID userID = ErrorResponse 404 ''RES_003'' ''Job not found''
       \<and> JobHandler_GetJob s missingID userID = ErrorResponse 404 ''RES_003'' ''Job not found''
       \<and> JobHandler_GetJobResult s jobID userID
           = ErrorResponse 404 ''RES_004'' ''Result not found''
       \<and> JobHandler_GetJobResult s missingID userID
           = ErrorResponse 404 ''RES_004'' ''Result not found''
       \<and> JobHandler_CancelJob now s jobID userID
           = (ErrorResponse 400 ''JOB_002'' ''unauthorized: job does not belong to user'', s)
       \<and> JobHandler_CancelJob now s missingID userID
           = (ErrorResponse 400 ''JOB_002'' ''job not found'', s)
       \<and> JobHandler_DeleteJob s jobID userID
           = (ErrorResponse 400 ''JOB_003'' ''unauthorized: job does not belong to user'', s)
       \<and> JobHandler_DeleteJob s missingID userID
           = (ErrorResponse 400 ''JOB_003'' ''job not found'', s)"
proof -
  have "err = ''job not found''"
    using assms(3) by (simp add: GetByID_def split: option.splits)
  with assms show ?thesis
    by (simp add: JobHandler_GetJob_def JobHandler_GetJobResult_def JobHandler_CancelJob_def
        JobHandler_DeleteJob_def GetJob_def GetJobResult_def CancelJob_def DeleteJob_def
        CancelJob_checks_def DeleteJob_checks_def)
qed

theorem foreign_job_hidden_by_reads_only_witness:
  "GetByID abc_store 1 = Inr job_A \<and> UserID job_A \<noteq> 99
   \<and> GetByID abc_store 8 = Inl ''job not found''
   \<and> JobHandler_GetJob abc_store 1 99 = JobHandler_GetJob abc_store 8 99
   \<and> JobHandler_GetJobResult abc_store 1 99 = JobHandler_GetJobResult abc_store 8 99"
proof -
  have h: "GetByID abc_store 1 = Inr job_A" "UserID job_A \<noteq> 99"
    "GetByID abc_store 8 = Inl ''job not found''"
    by code_simp+
  show ?thesis
    using foreign_job_hidden_by_reads_only [OF h, of 5] h by simp
qed

text \<open>Cancelling another user's job and cancelling a missing job give different
  responses.\<close>

theorem cancel_discloses_foreign_job_counterexample:
  "GetByID abc_store 1 = Inr job_A \<and> UserID job_A = 42
   \<and> GetByID abc_store 8 = Inl ''job not found''
   \<and> JobHandler_CancelJob 5 abc_store 1 99
       = (ErrorResponse 400 ''JOB_002'' ''unauthorized: job does not belong to user'', abc_store)
   \<and> JobHandler_CancelJob 5 abc_store 8 99
       = (ErrorResponse 400 ''JOB_002'' ''job not found'', abc_store)
   \<and> JobHandler_CancelJob 5 abc_store 1 99 \<noteq> JobHandler_CancelJob 5 abc_store 8 99"
  by code_simp

end
